theory Spec2Isabelle
  imports Main
begin

section \<open>Data model\<close>

text \<open>
  The three classes \<^verbatim>\<open>Context\<close>, \<^verbatim>\<open>CancelableContext\<close> and \<^verbatim>\<open>DeadlineContext\<close> are
  objects that point at one another (\<^verbatim>\<open>parent\<close>, \<^verbatim>\<open>children\<close>) and are mutated in
  place, so the model keeps an explicit store: the heap is a list of objects and an
  address is an index into it. Allocation appends.

  A cause is \<^verbatim>\<open>string | null\<close> in the source; it is a \<open>string option\<close> here, with
  \<open>None\<close> for \<^verbatim>\<open>null\<close>. The non-null assertion in \<^verbatim>\<open>parent.getCause()!\<close> is erased
  by the TypeScript compiler, so the argument that \<^verbatim>\<open>cancel\<close> receives at run time is
  again a \<open>string option\<close>.
\<close>

type_synonym addr = nat

datatype clazz = ContextC | CancelableContextC | DeadlineContextC

text \<open>
  The exceptions: the \<^verbatim>\<open>TypeError\<close> of the run time (a call of what is not a function,
  a redefinition of a non-writable property), and whatever a listener throws.
\<close>

datatype error = TypeError | ListenerError

text \<open>An \<^verbatim>\<open>AbortSignal\<close>: not aborted, or aborted with the reason of the first abort.\<close>

datatype signal = NotAborted | Aborted "string option"

text \<open>The property \<^verbatim>\<open>timeoutId\<close>: not yet defined, \<^verbatim>\<open>null\<close>, or a timer handle.\<close>

datatype timeout_slot = Undefined | Null | TimerId nat

text \<open>
  The properties \<^verbatim>\<open>_done\<close> and \<^verbatim>\<open>doneResolve\<close>, which the constructor defines together:
  both still undefined (\<open>NoPromise\<close>), a pending promise with the deadline contexts
  whose \<^verbatim>\<open>await parent.done\<close> is suspended on it, or a fulfilled promise with its value.
\<close>

datatype promise = NoPromise | Pending "addr list" | Fulfilled "string option"

text \<open>
  A listener is a \<^verbatim>\<open>CancelCallback\<close>, a function \<^verbatim>\<open>(cause: string) => void\<close> that the
  library calls with no \<^verbatim>\<open>try\<close> around the call. What matters of a listener is what it
  does to the contexts and whether it returns. A listener is modelled as an identifier
  (to tell the calls apart in the trace) and a body, a sequence of statements, each one
  of: \<^verbatim>\<open>x.cancel(...)\<close> on some context, with a string literal or with the cause that
  the listener received; \<^verbatim>\<open>x.onCancel(f)\<close> on some context, with another listener;
  \<^verbatim>\<open>throw\<close>. A listener with the empty body only returns. Listeners that construct
  contexts are left out: a listener that constructs a context, registers itself on it
  and cancels it never returns.
\<close>

datatype causeArg = Lit string | Received

datatype callback = Callback (ident: nat) (body: "stmt list")
and stmt = CallCancel addr causeArg | CallOnCancel addr callback | Throw

text \<open>
  The trace records, in order, every call of a listener (with the context whose
  listener it is, its identifier and the argument), of \<^verbatim>\<open>AbortController.abort\<close> and of
  the resolve function of a \<^verbatim>\<open>done\<close> promise.
\<close>

datatype event =
    Listener addr nat "string option"
  | AbortCall addr "string option"
  | ResolveCall addr "string option"

text \<open>
  One record for the objects of all three classes; \<open>cls\<close> is the class the object was
  created with (what \<^verbatim>\<open>instanceof\<close> and method dispatch look at). For an object of class
  \<^verbatim>\<open>Context\<close> only \<open>parent\<close> and \<open>children\<close> are meaningful: \<open>children = None\<close> then
  says that the object has no property \<^verbatim>\<open>children\<close>, and \<open>Some c\<close> that
  \<^verbatim>\<open>Object.defineProperty\<close> created it, which makes it non-writable and
  non-configurable. For the other two classes the constructor defines \<^verbatim>\<open>children\<close> as
  writable, with \<open>None\<close> for \<^verbatim>\<open>null\<close>.
\<close>

record obj =
  cls :: clazz
  parent :: "addr option"
  canceled :: bool
  cause :: "string option"
  cancelCallback :: "callback list"
  controller :: signal
  children :: "addr option"
  timeoutId :: timeout_slot
  doneP :: promise

text \<open>
  The state: the heap, the timers of the event loop that have not fired (handle and the
  deadline context whose \<^verbatim>\<open>finish\<close> the timer runs), the next timer handle, the queue
  of microtasks (each is the rest of the \<^verbatim>\<open>async\<close> function of a deadline context
  \<open>child\<close> after \<^verbatim>\<open>await parent.done\<close>, stored as \<open>(child, parent)\<close>), and the trace.
\<close>

record state =
  heap :: "obj list"
  timers :: "(nat \<times> addr) list"
  nextTimer :: nat
  jobs :: "(addr \<times> addr) list"
  trace :: "event list"

definition init :: state where
  "init = \<lparr>heap = [], timers = [], nextTimer = 0, jobs = [], trace = []\<rparr>"

definition upd :: "state \<Rightarrow> addr \<Rightarrow> (obj \<Rightarrow> obj) \<Rightarrow> state" where
  "upd s a f = s\<lparr>heap := (heap s)[a := f (heap s ! a)]\<rparr>"

definition emit :: "state \<Rightarrow> event list \<Rightarrow> state" where
  "emit s es = s\<lparr>trace := trace s @ es\<rparr>"

definition alloc :: "state \<Rightarrow> obj \<Rightarrow> state" where
  "alloc s ob = s\<lparr>heap := heap s @ [ob]\<rparr>"

definition valid :: "state \<Rightarrow> addr \<Rightarrow> bool" where
  "valid s a \<longleftrightarrow> a < length (heap s)"

text \<open>\<^verbatim>\<open>x instanceof CancelableContext\<close> and \<^verbatim>\<open>x instanceof DeadlineContext\<close>.\<close>

definition instanceofCancelable :: "state \<Rightarrow> addr \<Rightarrow> bool" where
  "instanceofCancelable s a \<longleftrightarrow> valid s a \<and> cls (heap s ! a) \<noteq> ContextC"

definition instanceofDeadline :: "state \<Rightarrow> addr \<Rightarrow> bool" where
  "instanceofDeadline s a \<longleftrightarrow> valid s a \<and> cls (heap s ! a) = DeadlineContextC"

section \<open>CancelableContext\<close>

definition isCancelled :: "state \<Rightarrow> addr \<Rightarrow> bool" where
  "isCancelled s a = canceled (heap s ! a)"

definition getCause :: "state \<Rightarrow> addr \<Rightarrow> string option" where
  "getCause s a = cause (heap s ! a)"

definition getController :: "state \<Rightarrow> addr \<Rightarrow> signal" where
  "getController s a = controller (heap s ! a)"

definition setCause :: "state \<Rightarrow> addr \<Rightarrow> string \<Rightarrow> state" where
  "setCause s a c = upd s a (\<lambda>ob. ob\<lparr>cause := Some c\<rparr>)"

text \<open>
  \<^verbatim>\<open>this.controller.abort(reason)\<close>: the call is recorded; it changes the signal only
  when the signal is not aborted yet. Handlers that a program adds to the signal itself
  (\<^verbatim>\<open>signal.addEventListener("abort", ...)\<close>) belong to the run time and not to the
  three classes; they are not modelled.
\<close>

definition abort :: "state \<Rightarrow> addr \<Rightarrow> string option \<Rightarrow> state" where
  "abort s a r =
     emit (upd s a (\<lambda>ob. ob\<lparr>controller :=
              (case controller ob of NotAborted \<Rightarrow> Aborted r | Aborted r0 \<Rightarrow> Aborted r0)\<rparr>))
          [AbortCall a r]"

text \<open>
  The first two statements of the body of \<^verbatim>\<open>CancelableContext.cancel\<close>:
  \<^verbatim>\<open>this.canceled = true; this.cause = cause\<close>.
\<close>

definition markCanceled :: "state \<Rightarrow> addr \<Rightarrow> string option \<Rightarrow> state" where
  "markCanceled s a c =
     upd (upd s a (\<lambda>ob. ob\<lparr>canceled := True\<rparr>)) a (\<lambda>ob. ob\<lparr>cause := c\<rparr>)"

section \<open>DeadlineContext: timer and promise\<close>

text \<open>
  \<^verbatim>\<open>DeadlineContext.clearTimeout\<close>: the test is \<^verbatim>\<open>this.timeoutId !== null\<close>, which an
  undefined property passes; the global \<^verbatim>\<open>clearTimeout\<close> ignores what is not a pending
  handle.
\<close>

definition clearTimeout :: "state \<Rightarrow> addr \<Rightarrow> state" where
  "clearTimeout s a =
     (case timeoutId (heap s ! a) of
        Null \<Rightarrow> s
      | Undefined \<Rightarrow> upd s a (\<lambda>ob. ob\<lparr>timeoutId := Null\<rparr>)
      | TimerId t \<Rightarrow>
          upd (s\<lparr>timers := filter (\<lambda>(t', b). t' \<noteq> t) (timers s)\<rparr>) a
              (\<lambda>ob. ob\<lparr>timeoutId := Null\<rparr>))"

text \<open>
  \<^verbatim>\<open>DeadlineContext.initializeTimer\<close>: the test is \<^verbatim>\<open>this.timeoutId == null\<close>, true of
  \<^verbatim>\<open>undefined\<close> and of \<^verbatim>\<open>null\<close>. The delay decides when the event loop fires the
  timer; the model leaves that moment open, so the delay is not stored.
\<close>

definition initializeTimer :: "state \<Rightarrow> addr \<Rightarrow> nat \<Rightarrow> state" where
  "initializeTimer s a timeoutMs =
     (case timeoutId (heap s ! a) of
        TimerId t \<Rightarrow> s
      | _ \<Rightarrow> upd (s\<lparr>timers := timers s @ [(nextTimer s, a)], nextTimer := Suc (nextTimer s)\<rparr>) a
               (\<lambda>ob. ob\<lparr>timeoutId := TimerId (nextTimer s)\<rparr>))"

text \<open>
  \<^verbatim>\<open>this.doneResolve(cause)\<close>. While the property is undefined the call throws a
  \<^verbatim>\<open>TypeError\<close>. Resolving a pending promise fulfils it and queues one microtask for
  each suspended \<^verbatim>\<open>await\<close>; resolving a fulfilled promise changes nothing.
\<close>

definition doneResolve :: "state \<Rightarrow> addr \<Rightarrow> string option \<Rightarrow> error option \<times> state" where
  "doneResolve s a c =
     (case doneP (heap s ! a) of
        NoPromise \<Rightarrow> (Some TypeError, s)
      | Pending ws \<Rightarrow>
          (None, emit (upd (s\<lparr>jobs := jobs s @ map (\<lambda>w. (w, a)) ws\<rparr>) a
                           (\<lambda>ob. ob\<lparr>doneP := Fulfilled c\<rparr>)) [ResolveCall a c])
      | Fulfilled v \<Rightarrow> (None, emit s [ResolveCall a c]))"

section \<open>cancel and onCancel\<close>

text \<open>
  A listener may throw, which leaves \<^verbatim>\<open>forEach\<close> and every caller above it, and it may
  call \<^verbatim>\<open>cancel\<close> and \<^verbatim>\<open>onCancel\<close> itself while a \<^verbatim>\<open>cancel\<close> is running. The model
  therefore runs the methods on an explicit stack of what is left to do. A frame is a
  call that is about to be made or the rest of a body that is being run:

  \<^item> \<open>FCancel a c\<close>: the call \<^verbatim>\<open>a.cancel(c)\<close>, dispatched on the class of \<open>a\<close>;
  \<^item> \<open>FOnCancel a cb\<close>: the call \<^verbatim>\<open>a.onCancel(cb)\<close>;
  \<^item> \<open>FForEach a cbs\<close>: the rest of \<^verbatim>\<open>this.cancelCallback.forEach(...)\<close> in the
    \<^verbatim>\<open>cancel\<close> of \<open>a\<close>, with the listeners still to call;
  \<^item> \<open>FBody ss x\<close>: the rest of the body of a listener that was called with \<open>x\<close>;
  \<^item> \<open>FAbort a c\<close>: \<^verbatim>\<open>this.controller.abort(cause)\<close> in the \<^verbatim>\<open>cancel\<close> of \<open>a\<close>;
  \<^item> \<open>FCascade a c\<close>: \<^verbatim>\<open>if (this.children !== null) this.children.cancel(cause)\<close>;
  \<^item> \<open>FResolve a c\<close>: \<^verbatim>\<open>this.doneResolve(cause)\<close>, the last statement of
    \<^verbatim>\<open>DeadlineContext.cancel\<close>.
\<close>

datatype frame =
    FCancel addr "string option"
  | FOnCancel addr callback
  | FForEach addr "callback list"
  | FBody "stmt list" "string option"
  | FAbort addr "string option"
  | FCascade addr "string option"
  | FResolve addr "string option"

text \<open>
  One frame is run: the result is the exception thrown, if any, the state, and the
  frames that take the place of the one that was run.

  \<^verbatim>\<open>a.cancel(c)\<close>: an object of class \<^verbatim>\<open>Context\<close> has no such method. The override of
  \<^verbatim>\<open>DeadlineContext\<close> runs \<^verbatim>\<open>clearTimeout\<close> first and \<^verbatim>\<open>doneResolve\<close> last, around
  \<^verbatim>\<open>super.cancel\<close>. The body of \<^verbatim>\<open>CancelableContext.cancel\<close> does nothing on a canceled
  object; on a live one it sets \<^verbatim>\<open>canceled\<close> and the cause, and leaves the listeners,
  the abort and the cascade to do, in this order. While the listeners run the object is
  canceled, so nothing is pushed onto its array, and \<^verbatim>\<open>forEach\<close> visits the listeners
  that are registered when it starts.

  \<^verbatim>\<open>a.onCancel(cb)\<close>: on a canceled object the listener is called at once with the
  stored cause, otherwise it is pushed.

  Every listener is called with \<^verbatim>\<open>this.cause!\<close>, read when the call is made.
\<close>

fun stepFrame :: "state \<Rightarrow> frame \<Rightarrow> error option \<times> state \<times> frame list" where
  "stepFrame s (FCancel a c) =
     (if instanceofCancelable s a then
        let s0 = (if cls (heap s ! a) = DeadlineContextC then clearTimeout s a else s);
            last = (if cls (heap s ! a) = DeadlineContextC then [FResolve a c] else [])
        in if canceled (heap s0 ! a) then (None, s0, last)
           else (None, markCanceled s0 a c,
                 [FForEach a (cancelCallback (heap s0 ! a)), FAbort a c, FCascade a c] @ last)
      else (Some TypeError, s, []))"
| "stepFrame s (FOnCancel a cb) =
     (if instanceofCancelable s a then
        if canceled (heap s ! a)
        then (None, emit s [Listener a (ident cb) (cause (heap s ! a))],
              [FBody (body cb) (cause (heap s ! a))])
        else (None, upd s a (\<lambda>ob. ob\<lparr>cancelCallback := cancelCallback ob @ [cb]\<rparr>), [])
      else (Some TypeError, s, []))"
| "stepFrame s (FForEach a []) = (None, s, [])"
| "stepFrame s (FForEach a (cb # cbs)) =
     (None, emit s [Listener a (ident cb) (cause (heap s ! a))],
      [FBody (body cb) (cause (heap s ! a)), FForEach a cbs])"
| "stepFrame s (FBody [] x) = (None, s, [])"
| "stepFrame s (FBody (CallCancel b g # ss) x) =
     (None, s, [FCancel b (case g of Lit c \<Rightarrow> Some c | Received \<Rightarrow> x), FBody ss x])"
| "stepFrame s (FBody (CallOnCancel b cb # ss) x) = (None, s, [FOnCancel b cb, FBody ss x])"
| "stepFrame s (FBody (Throw # ss) x) = (Some ListenerError, s, [])"
| "stepFrame s (FAbort a c) = (None, abort s a c, [])"
| "stepFrame s (FCascade a c) =
     (case children (heap s ! a) of
        None \<Rightarrow> (None, s, [])
      | Some ch \<Rightarrow> (None, s, [FCancel ch c]))"
| "stepFrame s (FResolve a c) = (case doneResolve s a c of (e, s') \<Rightarrow> (e, s', []))"

text \<open>
  The stack is run to its end: the first frame is run and what it leaves to do is put
  in front of the others. An exception empties the stack, since no method of the three
  classes catches one; the state keeps every write made before the throw.
\<close>

function exec :: "state \<Rightarrow> frame list \<Rightarrow> error option \<times> state" where
  "exec s [] = (None, s)"
| "exec s (f # fs) =
     (case stepFrame s f of
        (None, s', new) \<Rightarrow> exec s' (new @ fs)
      | (Some e, s', new) \<Rightarrow> (Some e, s'))"
  by pat_completeness auto

text \<open>The method calls \<^verbatim>\<open>a.cancel(c)\<close> and \<^verbatim>\<open>a.onCancel(cb)\<close>.\<close>

definition cancel :: "state \<Rightarrow> addr \<Rightarrow> string option \<Rightarrow> error option \<times> state" where
  "cancel s a c = exec s [FCancel a c]"

definition onCancel :: "state \<Rightarrow> addr \<Rightarrow> callback \<Rightarrow> error option \<times> state" where
  "onCancel s a cb = exec s [FOnCancel a cb]"

text \<open>
  \<^verbatim>\<open>this.cancelCallback.forEach((callback) => callback(this.cause!))\<close> in the \<^verbatim>\<open>cancel\<close>
  of \<open>a\<close>, over the listeners \<open>cbs\<close>; and the body \<open>ss\<close> of a listener called with \<open>x\<close>.
\<close>

definition forEach :: "state \<Rightarrow> addr \<Rightarrow> callback list \<Rightarrow> error option \<times> state" where
  "forEach s a cbs = exec s [FForEach a cbs]"

definition call :: "state \<Rightarrow> stmt list \<Rightarrow> string option \<Rightarrow> error option \<times> state" where
  "call s ss x = exec s [FBody ss x]"

text \<open>A listener that only returns.\<close>

definition inert :: "callback \<Rightarrow> bool" where
  "inert cb \<longleftrightarrow> body cb = []"

text \<open>
  The measure of the stack: every frame weighs more than the frames it leaves to do,
  except the \<^verbatim>\<open>cancel\<close> of a live object, which takes one off the live objects.
\<close>

definition live :: "state \<Rightarrow> nat" where
  "live s = length (filter (\<lambda>ob. \<not> canceled ob) (heap s))"

primrec weightC :: "callback \<Rightarrow> nat" and weightS :: "stmt \<Rightarrow> nat" where
  "weightC (Callback n ss) = Suc (sum_list (map weightS ss))"
| "weightS (CallCancel b g) = 3"
| "weightS (CallOnCancel b cb) = Suc (Suc (weightC cb))"
| "weightS Throw = 1"

fun weightF :: "frame \<Rightarrow> nat" where
  "weightF (FCancel a c) = 2"
| "weightF (FOnCancel a cb) = Suc (weightC cb)"
| "weightF (FForEach a cbs) = Suc (sum_list (map (\<lambda>cb. Suc (weightC cb)) cbs))"
| "weightF (FBody ss x) = Suc (sum_list (map weightS ss))"
| "weightF (FAbort a c) = 1"
| "weightF (FCascade a c) = 3"
| "weightF (FResolve a c) = 1"

section \<open>Constructors\<close>

definition defaultCause :: string where
  "defaultCause = ''context canceled''"

text \<open>\<^verbatim>\<open>x.cancel()\<close>, with the default value of the parameter.\<close>

definition cancelDefault :: "state \<Rightarrow> addr \<Rightarrow> error option \<times> state" where
  "cancelDefault s a = cancel s a (Some defaultCause)"

definition deadlineExceeded :: string where
  "deadlineExceeded = ''context deadline exceeded''"

text \<open>
  An object as the property definitions of the constructors leave it, before the
  constructor of \<^verbatim>\<open>CancelableContext\<close> looks at the parent: not canceled, no cause, no
  listener, a fresh controller, \<^verbatim>\<open>children\<close> null. The properties of
  \<^verbatim>\<open>DeadlineContext\<close> are still undefined at that point.
\<close>

definition freshObj :: "clazz \<Rightarrow> addr option \<Rightarrow> obj" where
  "freshObj k par =
     \<lparr>cls = k, parent = par, canceled = False, cause = None, cancelCallback = [],
      controller = NotAborted, children = None, timeoutId = Undefined, doneP = NoPromise\<rparr>"

text \<open>\<^verbatim>\<open>new Context(parent)\<close>; \<^verbatim>\<open>Context.background()\<close> and \<^verbatim>\<open>Context.todo()\<close>.\<close>

definition Context_new :: "state \<Rightarrow> addr option \<Rightarrow> addr \<times> state" where
  "Context_new s par = (length (heap s), alloc s (freshObj ContextC par))"

definition background :: "state \<Rightarrow> addr \<times> state" where
  "background s = Context_new s None"

definition todo :: "state \<Rightarrow> addr \<times> state" where
  "todo s = Context_new s None"

text \<open>
  \<^verbatim>\<open>Object.defineProperty(parent, "children", {value: this})\<close>. On a cancelable
  parent the property is writable and takes the new value. On an object of class
  \<^verbatim>\<open>Context\<close> the first call creates the property, non-writable and non-configurable,
  and a later call with another value throws a \<^verbatim>\<open>TypeError\<close>, as does a call on what is
  not an object.
\<close>

definition defineChildren :: "state \<Rightarrow> addr \<Rightarrow> addr \<Rightarrow> error option \<times> state" where
  "defineChildren s p a =
     (if \<not> valid s p then (Some TypeError, s)
      else if cls (heap s ! p) = ContextC then
        (case children (heap s ! p) of
           None \<Rightarrow> (None, upd s p (\<lambda>ob. ob\<lparr>children := Some a\<rparr>))
         | Some c \<Rightarrow> if c = a then (None, s) else (Some TypeError, s))
      else (None, upd s p (\<lambda>ob. ob\<lparr>children := Some a\<rparr>)))"

text \<open>
  The constructor of \<^verbatim>\<open>CancelableContext\<close>, run for an object of class \<open>k\<close>: it is also
  the \<^verbatim>\<open>super(parent)\<close> call of \<^verbatim>\<open>DeadlineContext\<close>, and then \<^verbatim>\<open>this.cancel\<close> is the
  override of \<^verbatim>\<open>DeadlineContext\<close>. The result is the exception thrown or the address of
  the new object. The parameter has the type \<^verbatim>\<open>Context\<close>: the parent is an object that
  exists before the call, and every statement below about a constructor is about such a
  parent (\<open>valid s p\<close>).
\<close>

definition CancelableContext_ctor ::
    "state \<Rightarrow> addr \<Rightarrow> clazz \<Rightarrow> (error + addr) \<times> state" where
  "CancelableContext_ctor s p k =
     (let a = length (heap s);
          s1 = alloc s (freshObj k (Some p))
      in if instanceofCancelable s1 p then
           if isCancelled s1 p then
             (case cancel s1 a (getCause s1 p) of
                (Some e, s2) \<Rightarrow> (Inl e, s2)
              | (None, s2) \<Rightarrow> (Inr a, s2))
           else
             (case defineChildren s1 p a of
                (Some e, s2) \<Rightarrow> (Inl e, s2)
              | (None, s2) \<Rightarrow> (Inr a, s2))
         else (Inr a, s1))"

definition CancelableContext_new :: "state \<Rightarrow> addr \<Rightarrow> (error + addr) \<times> state" where
  "CancelableContext_new s p = CancelableContext_ctor s p CancelableContextC"

definition withCancel :: "state \<Rightarrow> addr \<Rightarrow> (error + addr) \<times> state" where
  "withCancel s p = CancelableContext_new s p"

text \<open>
  \<^verbatim>\<open>await parent.done\<close> inside the \<^verbatim>\<open>async\<close> function of the constructor: on a pending
  promise the function is suspended; otherwise its continuation is queued at once.
\<close>

definition awaitDone :: "state \<Rightarrow> addr \<Rightarrow> addr \<Rightarrow> state" where
  "awaitDone s a p =
     (case doneP (heap s ! p) of
        Pending ws \<Rightarrow> upd s p (\<lambda>ob. ob\<lparr>doneP := Pending (ws @ [a])\<rparr>)
      | _ \<Rightarrow> s\<lparr>jobs := jobs s @ [(a, p)]\<rparr>)"

text \<open>The constructor of \<^verbatim>\<open>DeadlineContext\<close>.\<close>

definition DeadlineContext_new :: "state \<Rightarrow> addr \<Rightarrow> nat \<Rightarrow> (error + addr) \<times> state" where
  "DeadlineContext_new s p timeoutMs =
     (case CancelableContext_ctor s p DeadlineContextC of
        (Inl e, s1) \<Rightarrow> (Inl e, s1)
      | (Inr a, s1) \<Rightarrow>
          let s2 = initializeTimer s1 a timeoutMs;
              s3 = upd s2 a (\<lambda>ob. ob\<lparr>doneP := Pending []\<rparr>)
          in if instanceofCancelable s3 p \<and> isCancelled s3 p then
               (case cancel s3 a (getCause s3 p) of
                  (Some e, s4) \<Rightarrow> (Inl e, s4)
                | (None, s4) \<Rightarrow> (Inr a, s4))
             else
               let s4 = (if instanceofCancelable s3 p \<and> instanceofDeadline s3 p
                         then awaitDone s3 a p else s3)
               in (case defineChildren s4 p a of
                     (Some e, s5) \<Rightarrow> (Inl e, s5)
                   | (None, s5) \<Rightarrow> (Inr a, s5)))"

definition withTimeout :: "state \<Rightarrow> addr \<Rightarrow> nat \<Rightarrow> (error + addr) \<times> state" where
  "withTimeout s p timeoutMs = DeadlineContext_new s p timeoutMs"

section \<open>Timer expiry, microtasks\<close>

text \<open>\<^verbatim>\<open>DeadlineContext.finish\<close>, the body of the timer callback.\<close>

definition finish :: "state \<Rightarrow> addr \<Rightarrow> error option \<times> state" where
  "finish s a =
     (let s1 = setCause s a deadlineExceeded;
          s2 = abort s1 a (getCause s1 a)
      in doneResolve s2 a (getCause s2 a))"

text \<open>The event loop fires the pending timer \<open>t\<close>: the timer is consumed and its callback runs.\<close>

definition fireTimer :: "state \<Rightarrow> nat \<Rightarrow> error option \<times> state" where
  "fireTimer s t =
     (case map_of (timers s) t of
        None \<Rightarrow> (None, s)
      | Some a \<Rightarrow> finish (s\<lparr>timers := filter (\<lambda>(t', b). t' \<noteq> t) (timers s)\<rparr>) a)"

text \<open>
  The event loop runs the first microtask: the continuation
  \<^verbatim>\<open>this.cancel(parent.getCause()!)\<close> of a deadline context after \<^verbatim>\<open>await parent.done\<close>.
\<close>

definition runJob :: "state \<Rightarrow> error option \<times> state" where
  "runJob s =
     (case jobs s of
        [] \<Rightarrow> (None, s)
      | (c, p) # js \<Rightarrow> cancel (s\<lparr>jobs := js\<rparr>) c (getCause s p))"

section \<open>Steps and reachable states\<close>

text \<open>
  One step is one public operation of a program, or one turn of the event loop (a
  pending timer fires, the first microtask runs). A program may use every allocated
  address here, also that of an object whose constructor threw and which it never
  received, so the relation holds of at least the steps a real program makes. The causes
  a program passes are strings, as the type of \<^verbatim>\<open>cancel\<close> demands, and the listeners it
  registers are arbitrary. The state after a step that threw is a state like any other:
  a program may catch the exception and go on. A program that calls \<^verbatim>\<open>abort\<close> itself on
  the controller it got from \<^verbatim>\<open>getController()\<close> is not covered: the steps are the
  operations of the three classes.
\<close>

inductive step :: "state \<Rightarrow> state \<Rightarrow> bool" where
  s_root: "step s (snd (Context_new s None))"
| s_context: "valid s p \<Longrightarrow> step s (snd (Context_new s (Some p)))"
| s_cancelable: "valid s p \<Longrightarrow> step s (snd (CancelableContext_new s p))"
| s_deadline: "valid s p \<Longrightarrow> step s (snd (DeadlineContext_new s p timeoutMs))"
| s_cancel: "instanceofCancelable s a \<Longrightarrow> step s (snd (cancel s a (Some c)))"
| s_onCancel: "instanceofCancelable s a \<Longrightarrow> step s (snd (onCancel s a cb))"
| s_timer: "step s (snd (fireTimer s t))"
| s_job: "step s (snd (runJob s))"

inductive reachable :: "state \<Rightarrow> bool" where
  r_init: "reachable init"
| r_step: "reachable s \<Longrightarrow> step s s' \<Longrightarrow> reachable s'"

section \<open>Invariant of the reachable states\<close>

text \<open>
  What holds of every object in a reachable state. For an object created as
  \<^verbatim>\<open>CancelableContext\<close>: it has a cause exactly when it is canceled. For a
  \<^verbatim>\<open>DeadlineContext\<close>: canceled implies a cause; a cause without \<^verbatim>\<open>canceled\<close> is the
  one that \<^verbatim>\<open>finish\<close> stores; and as long as there is no cause the promise is pending.
\<close>

definition objOk :: "obj \<Rightarrow> bool" where
  "objOk ob =
     (case cls ob of
        ContextC \<Rightarrow> True
      | CancelableContextC \<Rightarrow> (canceled ob \<longleftrightarrow> cause ob \<noteq> None)
      | DeadlineContextC \<Rightarrow>
          (canceled ob \<longrightarrow> cause ob \<noteq> None) \<and>
          (\<not> canceled ob \<and> cause ob \<noteq> None \<longrightarrow> cause ob = Some deadlineExceeded) \<and>
          (cause ob = None \<longrightarrow> (\<exists>ws. doneP ob = Pending ws)))"

text \<open>The target of the pending timer \<open>t\<close>: a deadline context that nothing has touched yet.\<close>

definition armed :: "nat \<Rightarrow> obj \<Rightarrow> bool" where
  "armed t ob \<longleftrightarrow>
     cls ob = DeadlineContextC \<and> timeoutId ob = TimerId t \<and> \<not> canceled ob \<and>
     cause ob = None \<and> controller ob = NotAborted"

definition inv :: "state \<Rightarrow> bool" where
  "inv s \<longleftrightarrow>
     (\<forall>b<length (heap s). objOk (heap s ! b)) \<and>
     (\<forall>(t, a)\<in>set (timers s). a < length (heap s) \<and> armed t (heap s ! a)) \<and>
     (\<forall>(c, p)\<in>set (jobs s). p < length (heap s) \<and> cause (heap s ! p) \<noteq> None)"

text \<open>
  What holds of a frame on the stack while a method runs from a state with the
  invariant: the causes passed on are not null, and the frames that are the rest of a
  \<^verbatim>\<open>cancel\<close> belong to an object that this \<^verbatim>\<open>cancel\<close> found or made canceled.
\<close>

fun frameOk :: "state \<Rightarrow> frame \<Rightarrow> bool" where
  "frameOk s (FCancel a c) = (c \<noteq> None)"
| "frameOk s (FOnCancel a cb) = True"
| "frameOk s (FForEach a cbs) = (instanceofCancelable s a \<and> canceled (heap s ! a))"
| "frameOk s (FBody ss x) = (x \<noteq> None)"
| "frameOk s (FAbort a c) = (valid s a \<and> canceled (heap s ! a))"
| "frameOk s (FCascade a c) = (c \<noteq> None)"
| "frameOk s (FResolve a c) = (valid s a \<and> cause (heap s ! a) \<noteq> None)"

text \<open>
  What a later state keeps of an object: its class; once canceled, the flag and the
  cause; once fulfilled, the value of the promise; once aborted, the reason of the signal.
\<close>

definition settled :: "obj \<Rightarrow> obj \<Rightarrow> bool" where
  "settled ob ob' \<longleftrightarrow>
     cls ob' = cls ob \<and>
     (canceled ob \<longrightarrow> canceled ob' \<and> cause ob' = cause ob) \<and>
     (\<forall>v. doneP ob = Fulfilled v \<longrightarrow> doneP ob' = Fulfilled v) \<and>
     (\<forall>r. controller ob = Aborted r \<longrightarrow> controller ob' = Aborted r)"

definition stable :: "state \<Rightarrow> state \<Rightarrow> bool" where
  "stable s s' \<longleftrightarrow>
     length (heap s) \<le> length (heap s') \<and>
     (\<forall>b<length (heap s). settled (heap s ! b) (heap s' ! b))"

section \<open>Reading the trace\<close>

text \<open>\<open>isAnyListener e\<close>: the event \<open>e\<close> is a call of a listener; \<open>isAbort e\<close>: of \<^verbatim>\<open>abort\<close>.\<close>

fun isAnyListener :: "event \<Rightarrow> bool" where
  "isAnyListener (Listener b n x) = True"
| "isAnyListener (AbortCall b x) = False"
| "isAnyListener (ResolveCall b x) = False"

fun isAbort :: "event \<Rightarrow> bool" where
  "isAbort (Listener b n x) = False"
| "isAbort (AbortCall b x) = True"
| "isAbort (ResolveCall b x) = False"

section \<open>Several children of one parent\<close>

text \<open>
  The program that constructs cancelable children against the same parent \<open>p\<close>, one
  after the other, each with \<^verbatim>\<open>new CancelableContext(p)\<close> or with
  \<^verbatim>\<open>new DeadlineContext(p, ms)\<close>.
\<close>

datatype kind = Plain | Timed nat


fun construct :: "state \<Rightarrow> addr \<Rightarrow> kind \<Rightarrow> (error + addr) \<times> state" where
  "construct s p Plain = CancelableContext_new s p"
| "construct s p (Timed ms) = DeadlineContext_new s p ms"

fun attach :: "state \<Rightarrow> addr \<Rightarrow> kind list \<Rightarrow> state" where
  "attach s p [] = s"
| "attach s p (k # ks) = attach (snd (construct s p k)) p ks"

section \<open>Example runs\<close>

text \<open>
  Small programs, used to evaluate the operations on concrete states.
  \<^verbatim>\<open>const root = Context.todo(); const parent = new CancelableContext(root);\<close> puts
  the root at address 0 and the cancelable context at address 1;
  \<^verbatim>\<open>parent.cancel("x")\<close> follows.
\<close>

definition ex_root :: state where
  "ex_root = snd (todo init)"

definition ex_parent :: state where
  "ex_parent = snd (CancelableContext_new ex_root 0)"

definition ex_parent_canceled :: state where
  "ex_parent_canceled = snd (cancel ex_parent 1 (Some ''x''))"

text \<open>
  \<^verbatim>\<open>parent.onCancel(f7)\<close> with a listener that only returns, on the live parent, then
  two cancelable children of the parent, at the addresses 2 and 3.
\<close>

definition ex_listening :: state where
  "ex_listening = snd (onCancel ex_parent 1 (Callback 7 []))"

definition ex_family :: state where
  "ex_family = attach ex_listening 1 [Plain, Plain]"

text \<open>
  \<^verbatim>\<open>parent.onCancel(() => { throw ... }); parent.onCancel(f8);
  const child = new CancelableContext(parent)\<close>: the first listener of the parent
  throws, the second only returns; the child is at address 2.
\<close>

definition ex_faulty_listeners :: state where
  "ex_faulty_listeners =
     snd (onCancel (snd (onCancel ex_parent 1 (Callback 1 [Throw]))) 1 (Callback 8 []))"

definition ex_faulty :: state where
  "ex_faulty = snd (CancelableContext_new ex_faulty_listeners 1)"


text \<open>
  \<^verbatim>\<open>const root = Context.todo(); const d = new DeadlineContext(root, 1000);\<close> puts the
  deadline context at address 1 with the timer 0; then the timer fires.
\<close>

definition ex_deadline :: state where
  "ex_deadline = snd (DeadlineContext_new ex_root 0 1000)"

definition ex_expired :: state where
  "ex_expired = snd (fireTimer ex_deadline 0)"

text \<open>
  \<^verbatim>\<open>const child = new DeadlineContext(parent, 10000)\<close> against the live cancelable
  parent of the first run: the child is at address 2.
\<close>

definition ex_deadline_child :: state where
  "ex_deadline_child = snd (DeadlineContext_new ex_parent 1 10000)"

text \<open>\<^verbatim>\<open>d.cancel("first")\<close> on the deadline context before its timer fires.\<close>

definition ex_deadline_canceled :: state where
  "ex_deadline_canceled = snd (cancel ex_deadline 1 (Some ''first''))"

text \<open>\<^verbatim>\<open>d.onCancel(() => { throw ... })\<close> on the deadline context.\<close>

definition ex_deadline_faulty :: state where
  "ex_deadline_faulty = snd (onCancel ex_deadline 1 (Callback 1 [Throw]))"


text \<open>
  \<^verbatim>\<open>d.onCancel(f7); const e = new DeadlineContext(d, 5000); e.onCancel(f5)\<close>: the
  deadline context \<open>d\<close> with a listener and with the deadline context \<open>e\<close>, at address
  2 with the timer 1, as its propagation child, which has a listener too.
\<close>

definition ex_chain :: state where
  "ex_chain =
     snd (onCancel (snd (DeadlineContext_new (snd (onCancel ex_deadline 1 (Callback 7 []))) 1 5000))
            2 (Callback 5 []))"


section \<open>Frame lemmas for the primitive operations\<close>

lemma length_heap_upd [simp]: "length (heap (upd s a f)) = length (heap s)"
  by (simp add: upd_def)

lemma nth_heap_upd:
  "heap (upd s a f) ! b = (if b = a \<and> valid s a then f (heap s ! a) else heap s ! b)"
  by (cases "a < length (heap s)") (auto simp: upd_def valid_def list_update_beyond)

lemma rest_upd [simp]:
  "timers (upd s a f) = timers s" "jobs (upd s a f) = jobs s"
  "trace (upd s a f) = trace s" "nextTimer (upd s a f) = nextTimer s"
  by (simp_all add: upd_def)

lemma emit_simps [simp]:
  "heap (emit s es) = heap s" "timers (emit s es) = timers s" "jobs (emit s es) = jobs s"
  "trace (emit s es) = trace s @ es" "nextTimer (emit s es) = nextTimer s"
  by (simp_all add: emit_def)

lemma emit_emit: "emit (emit s es) es' = emit s (es @ es')"
  by (simp add: emit_def)

lemma emit_Nil [simp]: "emit s [] = s"
  by (simp add: emit_def)

lemma valid_upd [simp]: "valid (upd s a f) b = valid s b"
  by (simp add: valid_def)

lemma valid_emit [simp]: "valid (emit s es) b = valid s b"
  by (simp add: valid_def)

lemma length_heap_markCanceled [simp]: "length (heap (markCanceled s a c)) = length (heap s)"
  by (simp add: markCanceled_def)

lemma nth_heap_markCanceled:
  "heap (markCanceled s a c) ! b =
     (if b = a \<and> valid s a then (heap s ! a)\<lparr>canceled := True, cause := c\<rparr> else heap s ! b)"
  by (simp add: markCanceled_def nth_heap_upd)

lemma rest_markCanceled [simp]:
  "timers (markCanceled s a c) = timers s" "jobs (markCanceled s a c) = jobs s"
  "trace (markCanceled s a c) = trace s" "nextTimer (markCanceled s a c) = nextTimer s"
  by (simp_all add: markCanceled_def)

lemma valid_markCanceled [simp]: "valid (markCanceled s a c) b = valid s b"
  by (simp add: valid_def)

lemma length_heap_clearTimeout [simp]: "length (heap (clearTimeout s a)) = length (heap s)"
  by (simp add: clearTimeout_def split: timeout_slot.split)

lemma timeoutId_same: "timeoutId (r::obj) = v \<Longrightarrow> r\<lparr>timeoutId := v\<rparr> = r"
  by (cases r) simp

lemma nth_heap_clearTimeout:
  "heap (clearTimeout s a) ! b =
     (if b = a \<and> valid s a then (heap s ! a)\<lparr>timeoutId := Null\<rparr> else heap s ! b)"
  by (simp add: clearTimeout_def nth_heap_upd valid_def timeoutId_same split: timeout_slot.split)

lemma rest_clearTimeout [simp]:
  "jobs (clearTimeout s a) = jobs s" "trace (clearTimeout s a) = trace s"
  "nextTimer (clearTimeout s a) = nextTimer s"
  by (simp_all add: clearTimeout_def split: timeout_slot.split)

lemma valid_clearTimeout [simp]: "valid (clearTimeout s a) b = valid s b"
  by (simp add: valid_def)

lemma length_heap_abort [simp]: "length (heap (abort s a r)) = length (heap s)"
  by (simp add: abort_def)

lemma rest_abort [simp]:
  "timers (abort s a r) = timers s" "jobs (abort s a r) = jobs s"
  "trace (abort s a r) = trace s @ [AbortCall a r]" "nextTimer (abort s a r) = nextTimer s"
  by (simp_all add: abort_def)

lemma nth_heap_abort:
  "heap (abort s a r) ! b =
     (if b = a \<and> valid s a
      then (heap s ! a)\<lparr>controller :=
             (case controller (heap s ! a) of NotAborted \<Rightarrow> Aborted r | Aborted r0 \<Rightarrow> Aborted r0)\<rparr>
      else heap s ! b)"
  by (simp add: abort_def nth_heap_upd)

lemma valid_abort [simp]: "valid (abort s a r) b = valid s b"
  by (simp add: valid_def)

lemma length_heap_doneResolve [simp]:
  "length (heap (snd (doneResolve s a c))) = length (heap s)"
  by (simp add: doneResolve_def split: promise.split)

lemma nth_heap_doneResolve:
  "heap (snd (doneResolve s a c)) ! b =
     (if b = a \<and> valid s a \<and> (\<exists>ws. doneP (heap s ! a) = Pending ws)
      then (heap s ! a)\<lparr>doneP := Fulfilled c\<rparr> else heap s ! b)"
  by (auto simp: doneResolve_def nth_heap_upd valid_def split: promise.split)

lemma rest_doneResolve [simp]:
  "timers (snd (doneResolve s a c)) = timers s"
  "nextTimer (snd (doneResolve s a c)) = nextTimer s"
  by (simp_all add: doneResolve_def split: promise.split)

lemma valid_doneResolve [simp]: "valid (snd (doneResolve s a c)) b = valid s b"
  by (simp add: valid_def)

lemma fields_clearTimeout [simp]:
  "canceled (heap (clearTimeout s a) ! b) = canceled (heap s ! b)"
  "cause (heap (clearTimeout s a) ! b) = cause (heap s ! b)"
  "children (heap (clearTimeout s a) ! b) = children (heap s ! b)"
  "cancelCallback (heap (clearTimeout s a) ! b) = cancelCallback (heap s ! b)"
  "controller (heap (clearTimeout s a) ! b) = controller (heap s ! b)"
  "cls (heap (clearTimeout s a) ! b) = cls (heap s ! b)"
  "doneP (heap (clearTimeout s a) ! b) = doneP (heap s ! b)"
  by (simp_all add: nth_heap_clearTimeout)

lemma fields_markCanceled [simp]:
  "children (heap (markCanceled s a c) ! b) = children (heap s ! b)"
  "cancelCallback (heap (markCanceled s a c) ! b) = cancelCallback (heap s ! b)"
  "cls (heap (markCanceled s a c) ! b) = cls (heap s ! b)"
  "doneP (heap (markCanceled s a c) ! b) = doneP (heap s ! b)"
  "timeoutId (heap (markCanceled s a c) ! b) = timeoutId (heap s ! b)"
  "controller (heap (markCanceled s a c) ! b) = controller (heap s ! b)"
  by (simp_all add: nth_heap_markCanceled)

lemma fields_abort [simp]:
  "canceled (heap (abort s a r) ! b) = canceled (heap s ! b)"
  "cause (heap (abort s a r) ! b) = cause (heap s ! b)"
  "children (heap (abort s a r) ! b) = children (heap s ! b)"
  "cancelCallback (heap (abort s a r) ! b) = cancelCallback (heap s ! b)"
  "cls (heap (abort s a r) ! b) = cls (heap s ! b)"
  "doneP (heap (abort s a r) ! b) = doneP (heap s ! b)"
  "timeoutId (heap (abort s a r) ! b) = timeoutId (heap s ! b)"
  by (simp_all add: nth_heap_abort)

lemma fields_doneResolve [simp]:
  "canceled (heap (snd (doneResolve s a c)) ! b) = canceled (heap s ! b)"
  "cause (heap (snd (doneResolve s a c)) ! b) = cause (heap s ! b)"
  "children (heap (snd (doneResolve s a c)) ! b) = children (heap s ! b)"
  "cancelCallback (heap (snd (doneResolve s a c)) ! b) = cancelCallback (heap s ! b)"
  "timeoutId (heap (snd (doneResolve s a c)) ! b) = timeoutId (heap s ! b)"
  "controller (heap (snd (doneResolve s a c)) ! b) = controller (heap s ! b)"
  "cls (heap (snd (doneResolve s a c)) ! b) = cls (heap s ! b)"
  by (simp_all add: nth_heap_doneResolve)

lemma instanceofCancelable_simps [simp]:
  "instanceofCancelable (clearTimeout s a) b = instanceofCancelable s b"
  "instanceofCancelable (markCanceled s a c) b = instanceofCancelable s b"
  "instanceofCancelable (abort s a c) b = instanceofCancelable s b"
  "instanceofCancelable (emit s es) b = instanceofCancelable s b"
  "instanceofCancelable (snd (doneResolve s a c)) b = instanceofCancelable s b"
  by (simp_all add: instanceofCancelable_def)

section \<open>Termination\<close>

lemma live_card: "live s = card {i. i < length (heap s) \<and> \<not> canceled (heap s ! i)}"
  by (simp add: live_def length_filter_conv_card)

lemma live_markCanceled:
  assumes "valid s a" and "\<not> canceled (heap s ! a)"
  shows "live (markCanceled s a c) < live s"
proof -
  let ?A = "{i. i < length (heap s) \<and> \<not> canceled (heap (markCanceled s a c) ! i)}"
  let ?B = "{i. i < length (heap s) \<and> \<not> canceled (heap s ! i)}"
  have "?A \<subseteq> ?B" by (auto simp: nth_heap_markCanceled split: if_splits)
  moreover have "a \<in> ?B" using assms by (simp add: valid_def)
  moreover have "a \<notin> ?A" using assms by (simp add: nth_heap_markCanceled)
  ultimately have "?A \<subset> ?B" by blast
  then have "card ?A < card ?B" by (intro psubset_card_mono) simp_all
  then show ?thesis by (simp add: live_card)
qed

lemma live_same [simp]:
  "live (clearTimeout s a) = live s" "live (abort s a c) = live s" "live (emit s es) = live s"
  "live (snd (doneResolve s a c)) = live s"
  by (simp_all add: live_card)

lemma canceled_upd_callbacks [simp]:
  "canceled (heap (upd s a (\<lambda>ob. ob\<lparr>cancelCallback := f ob\<rparr>)) ! b) = canceled (heap s ! b)"
  by (simp add: nth_heap_upd)

lemma live_upd_callbacks [simp]:
  "live (upd s a (\<lambda>ob. ob\<lparr>cancelCallback := f ob\<rparr>)) = live s"
  by (simp add: live_card)

lemma stepFrame_decreases:
  assumes "stepFrame s f = (None, s', new)"
  shows "live s' < live s \<or> (live s' = live s \<and> sum_list (map weightF new) < weightF f)"
proof (cases f)
  case (FCancel a c)
  show ?thesis
  proof (cases "instanceofCancelable s a")
    case False
    with assms FCancel show ?thesis by simp
  next
    case True
    then have va: "valid s a" by (simp add: instanceofCancelable_def)
    show ?thesis
    proof (cases "canceled (heap s ! a)")
      case True
      with assms FCancel \<open>instanceofCancelable s a\<close> show ?thesis
        by (auto simp: Let_def split: if_splits)
    next
      case False
      with assms FCancel \<open>instanceofCancelable s a\<close> va show ?thesis
        using live_markCanceled [of s a c] live_markCanceled [of "clearTimeout s a" a c]
        by (auto simp: Let_def split: if_splits)
    qed
  qed
next
  case (FOnCancel a cb)
  with assms show ?thesis
    by (cases cb) (auto split: if_splits)
next
  case (FForEach a cbs)
  with assms show ?thesis
  proof (cases cbs)
    case Nil
    with assms FForEach show ?thesis by auto
  next
    case (Cons cb cbs')
    with assms FForEach show ?thesis by (cases cb) auto
  qed
next
  case (FBody ss x)
  show ?thesis
  proof (cases ss)
    case Nil
    with assms FBody show ?thesis by auto
  next
    case (Cons st ss')
    with assms FBody show ?thesis by (cases st) auto
  qed
next
  case (FAbort a c)
  with assms show ?thesis by auto
next
  case (FCascade a c)
  with assms show ?thesis by (auto split: option.splits)
next
  case (FResolve a c)
  with assms have "doneResolve s a c = (None, s')"
    by (auto split: prod.splits)
  then have "snd (doneResolve s a c) = s'" by simp
  then have "live s' = live s" using live_same(4) [of s a c] by simp
  with assms FResolve show ?thesis by (auto split: prod.splits)
qed

termination exec
proof (relation "measures [\<lambda>(s, fs). live s, \<lambda>(s, fs). sum_list (map weightF fs)]", goal_cases)
  case 1
  show ?case by simp
next
  case (2 s f fs x1 x2 s' new)
  then have "stepFrame s f = (None, s', new)" by simp
  from stepFrame_decreases [OF this] show ?case by auto
qed

declare exec.simps(2) [simp del]

section \<open>Running a stack\<close>

lemma exec_Cons:
  "exec s (f # fs) =
     (case stepFrame s f of
        (None, s', new) \<Rightarrow> exec s' (new @ fs)
      | (Some e, s', new) \<Rightarrow> (Some e, s'))"
  by (rule exec.simps(2))

text \<open>Running a stack is running its upper part and then, unless that threw, the rest.\<close>

lemma exec_append:
  "exec s (fs @ gs) =
     (case exec s fs of (None, s') \<Rightarrow> exec s' gs | (Some e, s') \<Rightarrow> (Some e, s'))"
proof (induction s fs rule: exec.induct)
  case (1 s)
  then show ?case by simp
next
  case (2 s f fs)
  obtain e s' new where st: "stepFrame s f = (e, s', new)" by (cases "stepFrame s f")
  show ?case
  proof (cases e)
    case None
    with st "2.IH" show ?thesis
      by (simp add: exec_Cons)
  next
    case (Some err)
    with st show ?thesis by (simp add: exec_Cons)
  qed
qed

lemma exec_first:
  "exec s (f # fs) =
     (case exec s [f] of (None, s') \<Rightarrow> exec s' fs | (Some e, s') \<Rightarrow> (Some e, s'))"
  using exec_append [of s "[f]" fs] by simp

text \<open>
  An invariant of the pair of state and stack that every frame keeps holds at the end,
  whether the run returns or throws.
\<close>

lemma exec_rule:
  assumes "Q s fs"
    and "\<And>s f fs s' new. Q s (f # fs) \<Longrightarrow> stepFrame s f = (None, s', new) \<Longrightarrow> Q s' (new @ fs)"
    and "\<And>s f fs e s' new. Q s (f # fs) \<Longrightarrow> stepFrame s f = (Some e, s', new) \<Longrightarrow> R (Some e, s')"
    and "\<And>s. Q s [] \<Longrightarrow> R (None, s)"
  shows "R (exec s fs)"
  using assms(1)
proof (induction s fs rule: exec.induct)
  case (1 s)
  then show ?case by (simp add: assms(4))
next
  case (2 s f fs)
  obtain e s' new where st: "stepFrame s f = (e, s', new)" by (cases "stepFrame s f")
  show ?case
  proof (cases e)
    case None
    with st "2.prems" have "Q s' (new @ fs)" by (auto intro: assms(2))
    with None st "2.IH" show ?thesis
      by (simp add: exec_Cons)
  next
    case (Some err)
    with st "2.prems" have "R (Some err, s')" by (auto intro: assms(3))
    with Some st show ?thesis by (simp add: exec_Cons)
  qed
qed

lemma exec_preserves:
  assumes "P s"
    and "\<And>s f e s' new. P s \<Longrightarrow> stepFrame s f = (e, s', new) \<Longrightarrow> P s'"
  shows "P (snd (exec s fs))"
proof -
  have "(\<lambda>r. P (snd r)) (exec s fs)"
    by (rule exec_rule [where Q = "\<lambda>s fs. P s"]) (auto intro: assms)
  then show ?thesis .
qed


section \<open>What every frame keeps\<close>

lemma nth_heap_upd_callbacks [simp]:
  "cls (heap (upd s a (\<lambda>ob. ob\<lparr>cancelCallback := f ob\<rparr>)) ! b) = cls (heap s ! b)"
  "children (heap (upd s a (\<lambda>ob. ob\<lparr>cancelCallback := f ob\<rparr>)) ! b) = children (heap s ! b)"
  "cause (heap (upd s a (\<lambda>ob. ob\<lparr>cancelCallback := f ob\<rparr>)) ! b) = cause (heap s ! b)"
  "timeoutId (heap (upd s a (\<lambda>ob. ob\<lparr>cancelCallback := f ob\<rparr>)) ! b) = timeoutId (heap s ! b)"
  "doneP (heap (upd s a (\<lambda>ob. ob\<lparr>cancelCallback := f ob\<rparr>)) ! b) = doneP (heap s ! b)"
  "controller (heap (upd s a (\<lambda>ob. ob\<lparr>cancelCallback := f ob\<rparr>)) ! b) = controller (heap s ! b)"
  by (simp_all add: nth_heap_upd)

text \<open>The state after a frame is the state before it, or one primitive operation away.\<close>

lemma stepFrame_prim:
  assumes "stepFrame s f = (e, s', new)"
  shows "s' = s \<or> (\<exists>a. s' = clearTimeout s a) \<or>
         (\<exists>a c. \<not> canceled (heap s ! a) \<and> s' = markCanceled s a c) \<or>
         (\<exists>a c. \<not> canceled (heap s ! a) \<and> s' = markCanceled (clearTimeout s a) a c) \<or>
         (\<exists>es. s' = emit s es) \<or>
         (\<exists>a cb. s' = upd s a (\<lambda>ob. ob\<lparr>cancelCallback := cancelCallback ob @ [cb]\<rparr>)) \<or>
         (\<exists>a c. s' = abort s a c) \<or>
         (\<exists>a c. s' = snd (doneResolve s a c))"
proof (cases f)
  case (FCancel a c)
  show ?thesis
  proof (cases "instanceofCancelable s a")
    case False
    with assms FCancel show ?thesis by simp
  next
    case True
    show ?thesis
    proof (cases "cls (heap s ! a) = DeadlineContextC")
      case d: True
      show ?thesis
      proof (cases "canceled (heap s ! a)")
        case True
        with assms FCancel \<open>instanceofCancelable s a\<close> d have "s' = clearTimeout s a"
          by (simp add: Let_def)
        then show ?thesis by blast
      next
        case False
        with assms FCancel \<open>instanceofCancelable s a\<close> d
        have "s' = markCanceled (clearTimeout s a) a c" by (simp add: Let_def)
        with False show ?thesis by blast
      qed
    next
      case d: False
      show ?thesis
      proof (cases "canceled (heap s ! a)")
        case True
        with assms FCancel \<open>instanceofCancelable s a\<close> d have "s' = s" by (simp add: Let_def)
        then show ?thesis by blast
      next
        case False
        with assms FCancel \<open>instanceofCancelable s a\<close> d
        have "s' = markCanceled s a c" by (simp add: Let_def)
        with False show ?thesis by blast
      qed
    qed
  qed
next
  case (FOnCancel a cb)
  with assms have "s' = s \<or> s' = emit s [Listener a (ident cb) (cause (heap s ! a))] \<or>
      s' = upd s a (\<lambda>ob. ob\<lparr>cancelCallback := cancelCallback ob @ [cb]\<rparr>)"
    by (simp split: if_splits)
  then show ?thesis by blast
next
  case (FForEach a cbs)
  with assms have "s' = s \<or> (\<exists>es. s' = emit s es)"
    by (cases cbs) auto
  then show ?thesis by blast
next
  case (FBody ss x)
  have "s' = s"
  proof (cases ss)
    case Nil
    with assms FBody show ?thesis by simp
  next
    case (Cons st ss')
    with assms FBody show ?thesis by (cases st) simp_all
  qed
  then show ?thesis by blast
next
  case (FAbort a c)
  with assms have "s' = abort s a c" by simp
  then show ?thesis by blast
next
  case (FCascade a c)
  with assms have "s' = s" by (simp split: option.splits)
  then show ?thesis by blast
next
  case (FResolve a c)
  with assms have "s' = snd (doneResolve s a c)" by (simp split: prod.splits)
  then show ?thesis by blast
qed


lemma stepFrame_cases [consumes 1, case_names same clear mark markClear emit push abort resolve]:
  assumes "stepFrame s f = (e, s', new)"
    and "s' = s \<Longrightarrow> P"
    and "\<And>a. s' = clearTimeout s a \<Longrightarrow> P"
    and "\<And>a c. \<not> canceled (heap s ! a) \<Longrightarrow> s' = markCanceled s a c \<Longrightarrow> P"
    and "\<And>a c. \<not> canceled (heap s ! a) \<Longrightarrow> s' = markCanceled (clearTimeout s a) a c \<Longrightarrow> P"
    and "\<And>es. s' = emit s es \<Longrightarrow> P"
    and "\<And>a cb. s' = upd s a (\<lambda>ob. ob\<lparr>cancelCallback := cancelCallback ob @ [cb]\<rparr>) \<Longrightarrow> P"
    and "\<And>a c. s' = abort s a c \<Longrightarrow> P"
    and "\<And>a c. s' = snd (doneResolve s a c) \<Longrightarrow> P"
  shows P
  using stepFrame_prim [OF assms(1)] assms(2-) by blast

lemma stepFrame_keeps:
  assumes "stepFrame s f = (e, s', new)"
  shows "length (heap s') = length (heap s)"
    and "cls (heap s' ! b) = cls (heap s ! b)"
    and "children (heap s' ! b) = children (heap s ! b)"
    and "canceled (heap s ! b) \<Longrightarrow> canceled (heap s' ! b) \<and> cause (heap s' ! b) = cause (heap s ! b)"
    and "timeoutId (heap s ! b) = Null \<Longrightarrow> timeoutId (heap s' ! b) = Null"
    and "doneP (heap s' ! b) = NoPromise \<longleftrightarrow> doneP (heap s ! b) = NoPromise"
    and "nextTimer s' = nextTimer s"
proof -
  show "length (heap s') = length (heap s)"
    using assms by (cases rule: stepFrame_cases) simp_all
  show "cls (heap s' ! b) = cls (heap s ! b)"
    using assms by (cases rule: stepFrame_cases) simp_all
  show "children (heap s' ! b) = children (heap s ! b)"
    using assms by (cases rule: stepFrame_cases) simp_all
  show "canceled (heap s' ! b) \<and> cause (heap s' ! b) = cause (heap s ! b)" if "canceled (heap s ! b)"
    using assms that
    by (cases rule: stepFrame_cases) (auto simp: nth_heap_markCanceled)
  show "timeoutId (heap s' ! b) = Null" if "timeoutId (heap s ! b) = Null"
    using assms that
    by (cases rule: stepFrame_cases) (simp_all add: nth_heap_clearTimeout)
  show "doneP (heap s' ! b) = NoPromise \<longleftrightarrow> doneP (heap s ! b) = NoPromise"
    using assms
    by (cases rule: stepFrame_cases) (auto simp: nth_heap_doneResolve)
  show "nextTimer s' = nextTimer s"
    using assms by (cases rule: stepFrame_cases) simp_all
qed

lemma trace_doneResolve:
  "\<exists>es. trace (snd (doneResolve s a c)) = trace s @ es \<and> filter isAnyListener es = [] \<and>
        filter isAbort es = []"
  by (simp add: doneResolve_def split: promise.split)

lemma stepFrame_trace:
  assumes "stepFrame s f = (e, s', new)"
  shows "\<exists>es. trace s' = trace s @ es"
  using assms
proof (cases rule: stepFrame_cases)
  case (resolve a c)
  then show ?thesis using trace_doneResolve [of s a c] by auto
qed simp_all

lemma length_heap_exec [simp]: "length (heap (snd (exec s fs))) = length (heap s)"
proof -
  define n where "n = length (heap s)"
  have "length (heap s) = n" by (simp add: n_def)
  then have "length (heap (snd (exec s fs))) = n"
    by (rule exec_preserves) (simp add: stepFrame_keeps(1))
  then show ?thesis by (simp add: n_def)
qed

lemma cls_exec [simp]: "cls (heap (snd (exec s fs)) ! b) = cls (heap s ! b)"
proof -
  define k where "k = cls (heap s ! b)"
  have "cls (heap s ! b) = k" by (simp add: k_def)
  then have "cls (heap (snd (exec s fs)) ! b) = k"
    by (rule exec_preserves) (simp add: stepFrame_keeps(2))
  then show ?thesis by (simp add: k_def)
qed

lemma children_exec [simp]: "children (heap (snd (exec s fs)) ! b) = children (heap s ! b)"
proof -
  define k where "k = children (heap s ! b)"
  have "children (heap s ! b) = k" by (simp add: k_def)
  then have "children (heap (snd (exec s fs)) ! b) = k"
    by (rule exec_preserves) (simp add: stepFrame_keeps(3))
  then show ?thesis by (simp add: k_def)
qed

lemma nextTimer_exec [simp]: "nextTimer (snd (exec s fs)) = nextTimer s"
proof -
  define k where "k = nextTimer s"
  have "nextTimer s = k" by (simp add: k_def)
  then have "nextTimer (snd (exec s fs)) = k"
    by (rule exec_preserves) (simp add: stepFrame_keeps(7))
  then show ?thesis by (simp add: k_def)
qed

text \<open>Once canceled, an object stays canceled with its cause through every run.\<close>

lemma canceled_cause_exec:
  assumes "canceled (heap s ! b)"
  shows "canceled (heap (snd (exec s fs)) ! b) \<and>
         cause (heap (snd (exec s fs)) ! b) = cause (heap s ! b)"
proof -
  define k where "k = cause (heap s ! b)"
  have "canceled (heap s ! b) \<and> cause (heap s ! b) = k" using assms by (simp add: k_def)
  then have "canceled (heap (snd (exec s fs)) ! b) \<and> cause (heap (snd (exec s fs)) ! b) = k"
    by (rule exec_preserves) (use stepFrame_keeps(4) in fastforce)
  then show ?thesis by (simp add: k_def)
qed

lemma timeoutId_Null_exec:
  assumes "timeoutId (heap s ! b) = Null"
  shows "timeoutId (heap (snd (exec s fs)) ! b) = Null"
  using assms by (rule exec_preserves) (simp add: stepFrame_keeps(5))

lemma doneP_exec_NoPromise:
  "doneP (heap (snd (exec s fs)) ! b) = NoPromise \<longleftrightarrow> doneP (heap s ! b) = NoPromise"
proof -
  define k where "k \<longleftrightarrow> doneP (heap s ! b) = NoPromise"
  have "doneP (heap s ! b) = NoPromise \<longleftrightarrow> k" by (simp add: k_def)
  then have "doneP (heap (snd (exec s fs)) ! b) = NoPromise \<longleftrightarrow> k"
    by (rule exec_preserves) (simp add: stepFrame_keeps(6))
  then show ?thesis by (simp add: k_def)
qed

lemma trace_exec_prefix: "\<exists>es. trace (snd (exec s fs)) = trace s @ es"
proof -
  define tr where "tr = trace s"
  have "\<exists>es. trace s = tr @ es" by (simp add: tr_def)
  then have "\<exists>es. trace (snd (exec s fs)) = tr @ es"
  proof (rule exec_preserves)
    fix s f e s' new
    assume "\<exists>es. trace s = tr @ es" and "stepFrame s f = (e, s', new)"
    then show "\<exists>es. trace s' = tr @ es"
      using stepFrame_trace [of s f e s' new] by auto
  qed
  then show ?thesis by (simp add: tr_def)
qed

lemma valid_exec [simp]: "valid (snd (exec s fs)) b = valid s b"
  by (simp add: valid_def)

lemma instanceofCancelable_exec [simp]:
  "instanceofCancelable (snd (exec s fs)) b = instanceofCancelable s b"
  by (simp add: instanceofCancelable_def)

lemmas cancel_keeps [simp] =
  length_heap_exec [of _ "[FCancel a c]", folded cancel_def]
  cls_exec [of _ "[FCancel a c]", folded cancel_def]
  children_exec [of _ "[FCancel a c]", folded cancel_def]
  nextTimer_exec [of _ "[FCancel a c]", folded cancel_def]
  valid_exec [of _ "[FCancel a c]", folded cancel_def]
  instanceofCancelable_exec [of _ "[FCancel a c]", folded cancel_def]
  for a c

lemmas onCancel_keeps [simp] =
  length_heap_exec [of _ "[FOnCancel a cb]", folded onCancel_def]
  cls_exec [of _ "[FOnCancel a cb]", folded onCancel_def]
  children_exec [of _ "[FOnCancel a cb]", folded onCancel_def]
  nextTimer_exec [of _ "[FOnCancel a cb]", folded onCancel_def]
  valid_exec [of _ "[FOnCancel a cb]", folded onCancel_def]
  instanceofCancelable_exec [of _ "[FOnCancel a cb]", folded onCancel_def]
  for a cb

section \<open>Unfolding the frames\<close>

lemma exec_FForEach_Nil [simp]: "exec s (FForEach a [] # fs) = exec s fs"
  by (simp add: exec_Cons)

lemma exec_FForEach_Cons:
  "exec s (FForEach a (cb # cbs) # fs) =
     exec (emit s [Listener a (ident cb) (cause (heap s ! a))])
          (FBody (body cb) (cause (heap s ! a)) # FForEach a cbs # fs)"
  by (simp add: exec_Cons)

lemma exec_FBody_Nil [simp]: "exec s (FBody [] x # fs) = exec s fs"
  by (simp add: exec_Cons)

lemma exec_FBody_Throw [simp]: "exec s (FBody (Throw # ss) x # fs) = (Some ListenerError, s)"
  by (simp add: exec_Cons)

lemma exec_FBody_CallCancel:
  "exec s (FBody (CallCancel b g # ss) x # fs) =
     exec s (FCancel b (case g of Lit c \<Rightarrow> Some c | Received \<Rightarrow> x) # FBody ss x # fs)"
  by (simp add: exec_Cons)

lemma exec_FBody_CallOnCancel:
  "exec s (FBody (CallOnCancel b cb # ss) x # fs) = exec s (FOnCancel b cb # FBody ss x # fs)"
  by (simp add: exec_Cons)

lemma exec_FAbort [simp]: "exec s (FAbort a c # fs) = exec (abort s a c) fs"
  by (simp add: exec_Cons)

lemma exec_FCascade:
  "exec s (FCascade a c # fs) =
     (case children (heap s ! a) of None \<Rightarrow> exec s fs | Some ch \<Rightarrow> exec s (FCancel ch c # fs))"
  by (simp add: exec_Cons split: option.split)

lemma exec_FResolve:
  "exec s (FResolve a c # fs) =
     (case doneResolve s a c of (None, s') \<Rightarrow> exec s' fs | (Some e, s') \<Rightarrow> (Some e, s'))"
  by (simp add: exec_Cons split: prod.split option.split)

lemma exec_FResolve_last [simp]: "exec s [FResolve a c] = doneResolve s a c"
  by (simp add: exec_FResolve split: prod.split option.split)

lemma exec_FCancel_not_cancelable:
  "\<not> instanceofCancelable s a \<Longrightarrow> exec s (FCancel a c # fs) = (Some TypeError, s)"
  by (simp add: exec_Cons)

lemma exec_FCancel_canceled:
  assumes "instanceofCancelable s a" and "canceled (heap s ! a)"
  shows "exec s (FCancel a c # fs) =
           (if cls (heap s ! a) = DeadlineContextC
            then exec (clearTimeout s a) (FResolve a c # fs) else exec s fs)"
  using assms by (simp add: exec_Cons Let_def)

lemma exec_FCancel_live:
  assumes "instanceofCancelable s a" and "\<not> canceled (heap s ! a)"
  shows "exec s (FCancel a c # fs) =
           exec (markCanceled (if cls (heap s ! a) = DeadlineContextC then clearTimeout s a else s) a c)
             (FForEach a (cancelCallback (heap s ! a)) # FAbort a c # FCascade a c #
              (if cls (heap s ! a) = DeadlineContextC then [FResolve a c] else []) @ fs)"
  using assms by (simp add: exec_Cons Let_def)

lemma exec_FOnCancel:
  assumes "instanceofCancelable s a"
  shows "exec s (FOnCancel a cb # fs) =
           (if canceled (heap s ! a)
            then exec (emit s [Listener a (ident cb) (cause (heap s ! a))])
                   (FBody (body cb) (cause (heap s ! a)) # fs)
            else exec (upd s a (\<lambda>ob. ob\<lparr>cancelCallback := cancelCallback ob @ [cb]\<rparr>)) fs)"
  using assms by (simp add: exec_Cons)

text \<open>Listeners that only return: \<^verbatim>\<open>forEach\<close> calls each of them and goes on.\<close>

lemma exec_FForEach_inert:
  assumes "list_all inert cbs"
  shows "exec s (FForEach a cbs # fs) =
           exec (emit s (map (\<lambda>cb. Listener a (ident cb) (cause (heap s ! a))) cbs)) fs"
  using assms
proof (induction cbs arbitrary: s)
  case Nil
  then show ?case by simp
next
  case (Cons cb cbs)
  from Cons.prems have "list_all inert cbs" by simp
  moreover from Cons.prems have "body cb = []" by (simp add: inert_def)
  ultimately show ?case
    using Cons.IH [of "emit s [Listener a (ident cb) (cause (heap s ! a))]"]
    by (simp add: exec_FForEach_Cons emit_emit)
qed

section \<open>cancel, case by case\<close>

lemma cancel_not_cancelable:
  "\<not> instanceofCancelable s a \<Longrightarrow> cancel s a c = (Some TypeError, s)"
  by (simp add: cancel_def exec_FCancel_not_cancelable)

lemma cancel_canceled:
  assumes "instanceofCancelable s a" and "canceled (heap s ! a)"
  shows "cancel s a c =
           (if cls (heap s ! a) = DeadlineContextC
            then doneResolve (clearTimeout s a) a c else (None, s))"
  using assms by (simp add: cancel_def exec_FCancel_canceled)

text \<open>
  \<^verbatim>\<open>cancel\<close> on a live object: the object is marked, then the listeners run; if one
  of them throws, that is the end; otherwise \<^verbatim>\<open>abort\<close>, then the cascade, then, in a
  deadline context and unless the cascade threw, \<^verbatim>\<open>doneResolve\<close>.
\<close>

lemma cancel_live:
  fixes c :: "string option"
  assumes "instanceofCancelable s a" and "\<not> canceled (heap s ! a)"
  defines "s2 \<equiv> markCanceled (if cls (heap s ! a) = DeadlineContextC then clearTimeout s a else s) a c"
  shows "cancel s a c =
           (case forEach s2 a (cancelCallback (heap s ! a)) of
              (Some e, s3) \<Rightarrow> (Some e, s3)
            | (None, s3) \<Rightarrow>
                (let s1 = abort s3 a c;
                     rs = (case children (heap s1 ! a) of
                             None \<Rightarrow> (None, s1) | Some ch \<Rightarrow> cancel s1 ch c)
                 in if cls (heap s ! a) = DeadlineContextC \<and> fst rs = None
                    then doneResolve (snd rs) a c else rs))"
proof -
  let ?post = "if cls (heap s ! a) = DeadlineContextC then [FResolve a c] else []"
  have 1: "cancel s a c =
      exec s2 ([FForEach a (cancelCallback (heap s ! a))] @ (FAbort a c # FCascade a c # ?post))"
    using assms(1,2) by (simp add: cancel_def exec_FCancel_live s2_def)
  have 2: "exec s3 (FAbort a c # FCascade a c # ?post) =
      (let s1 = abort s3 a c;
           rs = (case children (heap s1 ! a) of
                   None \<Rightarrow> (None, s1) | Some ch \<Rightarrow> cancel s1 ch c)
       in if cls (heap s ! a) = DeadlineContextC \<and> fst rs = None
          then doneResolve (snd rs) a c else rs)" for s3
  proof (cases "children (heap s3 ! a)")
    case None
    then show ?thesis by (simp add: exec_FCascade Let_def)
  next
    case (Some ch)
    have "exec (abort s3 a c) (FCancel ch c # ?post) =
        (case cancel (abort s3 a c) ch c of (None, s') \<Rightarrow> exec s' ?post | (Some e, s') \<Rightarrow> (Some e, s'))"
      using exec_first [of "abort s3 a c" "FCancel ch c" ?post] by (simp add: cancel_def)
    with Some show ?thesis
      by (auto simp: exec_FCascade Let_def split: prod.splits option.splits)
  qed
  show ?thesis
    unfolding 1 exec_append forEach_def [symmetric] 2
    by (simp split: prod.splits option.splits)
qed

lemma forEach_Nil [simp]: "forEach s a [] = (None, s)"
  by (simp add: forEach_def)

lemma forEach_Cons:
  "forEach s a (cb # cbs) =
     (case call (emit s [Listener a (ident cb) (cause (heap s ! a))]) (body cb) (cause (heap s ! a)) of
        (None, s') \<Rightarrow> forEach s' a cbs
      | (Some e, s') \<Rightarrow> (Some e, s'))"
  unfolding forEach_def call_def exec_FForEach_Cons
  using exec_first [of _ "FBody (body cb) (cause (heap s ! a))" "[FForEach a cbs]"]
  by simp

lemma forEach_append:
  "forEach s a (cbs @ cbs') =
     (case forEach s a cbs of (None, s') \<Rightarrow> forEach s' a cbs' | (Some e, s') \<Rightarrow> (Some e, s'))"
proof (induction cbs arbitrary: s)
  case Nil
  then show ?case by simp
next
  case (Cons cb cbs)
  show ?case
    by (simp add: forEach_Cons Cons.IH split: prod.splits option.splits)
qed

lemma forEach_inert:
  "list_all inert cbs \<Longrightarrow>
   forEach s a cbs = (None, emit s (map (\<lambda>cb. Listener a (ident cb) (cause (heap s ! a))) cbs))"
  by (simp add: forEach_def exec_FForEach_inert)

lemma call_Nil [simp]: "call s [] x = (None, s)"
  by (simp add: call_def)

lemma onCancel_unfold:
  assumes "instanceofCancelable s a"
  shows "onCancel s a cb =
           (if canceled (heap s ! a)
            then call (emit s [Listener a (ident cb) (cause (heap s ! a))]) (body cb) (cause (heap s ! a))
            else (None, upd s a (\<lambda>ob. ob\<lparr>cancelCallback := cancelCallback ob @ [cb]\<rparr>)))"
  using assms by (simp add: onCancel_def call_def exec_FOnCancel)

lemma onCancel_not_cancelable:
  "\<not> instanceofCancelable s a \<Longrightarrow> onCancel s a cb = (Some TypeError, s)"
  by (simp add: onCancel_def exec_Cons)


section \<open>Allocation\<close>

lemma alloc_simps [simp]:
  "length (heap (alloc s ob)) = Suc (length (heap s))"
  "timers (alloc s ob) = timers s" "jobs (alloc s ob) = jobs s"
  "trace (alloc s ob) = trace s" "nextTimer (alloc s ob) = nextTimer s"
  by (simp_all add: alloc_def)

lemma nth_heap_alloc:
  "b \<le> length (heap s) \<Longrightarrow>
   heap (alloc s ob) ! b = (if b = length (heap s) then ob else heap s ! b)"
  by (auto simp: alloc_def nth_append)

lemma valid_alloc: "valid (alloc s ob) b \<longleftrightarrow> b \<le> length (heap s)"
  by (auto simp: valid_def)

lemma freshObj_simps [simp]:
  "cls (freshObj k par) = k" "parent (freshObj k par) = par"
  "canceled (freshObj k par) = False" "cause (freshObj k par) = None"
  "cancelCallback (freshObj k par) = []" "controller (freshObj k par) = NotAborted"
  "children (freshObj k par) = None" "timeoutId (freshObj k par) = Undefined"
  "doneP (freshObj k par) = NoPromise"
  by (simp_all add: freshObj_def)

section \<open>Construction\<close>

lemma defineChildren_cancelable:
  "instanceofCancelable s p \<Longrightarrow>
   defineChildren s p a = (None, upd s p (\<lambda>ob. ob\<lparr>children := Some a\<rparr>))"
  by (simp add: defineChildren_def instanceofCancelable_def)

lemma instanceofCancelable_alloc:
  "valid s p \<Longrightarrow> instanceofCancelable (alloc s ob) p = instanceofCancelable s p"
  by (simp add: instanceofCancelable_def valid_def nth_heap_alloc)

text \<open>
  \<^verbatim>\<open>cancel\<close> on a live object without listeners and without \<^verbatim>\<open>children\<close>: the object
  is marked and its signal aborted; a deadline context then resolves its promise.
\<close>

lemma cancel_alone:
  assumes "instanceofCancelable s a" and "\<not> canceled (heap s ! a)"
    and "cancelCallback (heap s ! a) = []" and "children (heap s ! a) = None"
  shows "cancel s a c =
           (if cls (heap s ! a) = DeadlineContextC
            then doneResolve (abort (markCanceled (clearTimeout s a) a c) a c) a c
            else (None, abort (markCanceled s a c) a c))"
  using assms by (simp add: cancel_live Let_def)

lemma cancel_fresh_Cancelable:
  assumes "valid s a" "heap s ! a = freshObj CancelableContextC par"
  shows "cancel s a c = (None, abort (markCanceled s a c) a c)"
  using assms by (simp add: cancel_alone instanceofCancelable_def)

lemma cancel_fresh_Deadline:
  assumes "valid s a" "heap s ! a = freshObj DeadlineContextC par"
  shows "cancel s a c = (Some TypeError, abort (markCanceled (clearTimeout s a) a c) a c)"
  using assms
  by (simp add: cancel_alone instanceofCancelable_def doneResolve_def)

lemma CancelableContext_ctor_canceled:
  assumes "instanceofCancelable s p" "isCancelled s p"
  shows "CancelableContext_ctor s p CancelableContextC =
           (Inr (length (heap s)),
            abort (markCanceled (alloc s (freshObj CancelableContextC (Some p))) (length (heap s))
                     (getCause s p)) (length (heap s)) (getCause s p))"
    and "CancelableContext_ctor s p DeadlineContextC =
           (Inl TypeError,
            abort (markCanceled
                     (clearTimeout (alloc s (freshObj DeadlineContextC (Some p))) (length (heap s)))
                     (length (heap s)) (getCause s p)) (length (heap s)) (getCause s p))"
  using assms
  by (simp_all add: CancelableContext_ctor_def Let_def instanceofCancelable_alloc
        isCancelled_def getCause_def nth_heap_alloc instanceofCancelable_def valid_def
        cancel_fresh_Cancelable [where par = "Some p"] cancel_fresh_Deadline [where par = "Some p"])

lemma CancelableContext_ctor_live:
  assumes "instanceofCancelable s p" "\<not> isCancelled s p"
  shows "CancelableContext_ctor s p k =
           (Inr (length (heap s)),
            upd (alloc s (freshObj k (Some p))) p (\<lambda>ob. ob\<lparr>children := Some (length (heap s))\<rparr>))"
  using assms
  by (simp add: CancelableContext_ctor_def Let_def instanceofCancelable_alloc
        isCancelled_def nth_heap_alloc instanceofCancelable_def valid_def defineChildren_def)

lemma CancelableContext_ctor_plain:
  assumes "valid s p" "\<not> instanceofCancelable s p"
  shows "CancelableContext_ctor s p k = (Inr (length (heap s)), alloc s (freshObj k (Some p)))"
  using assms
  by (simp add: CancelableContext_ctor_def Let_def instanceofCancelable_alloc)

lemma DeadlineContext_new_canceled_parent:
  assumes "instanceofCancelable s p" "isCancelled s p"
  shows "fst (DeadlineContext_new s p timeoutMs) = Inl TypeError"
  using assms by (simp add: DeadlineContext_new_def CancelableContext_ctor_canceled)

section \<open>Construction against a cancelable parent\<close>

text \<open>
  Claim C5. Constructing a \<^verbatim>\<open>CancelableContext\<close> against a cancelable parent returns the
  new object. If the parent is already canceled, the new object is canceled with the
  cause of the parent when the constructor returns, and the parent object is left as it
  was, so the new object is not its propagation child. If the parent is not canceled, the
  new object becomes the \<^verbatim>\<open>children\<close> of the parent and is itself not canceled.
\<close>

theorem CancelableContext_new_inherits:
  assumes "instanceofCancelable s p"
  shows "fst (CancelableContext_new s p) = Inr (length (heap s)) \<and>
         (if isCancelled s p
          then isCancelled (snd (CancelableContext_new s p)) (length (heap s)) \<and>
               getCause (snd (CancelableContext_new s p)) (length (heap s)) = getCause s p \<and>
               heap (snd (CancelableContext_new s p)) ! p = heap s ! p
          else children (heap (snd (CancelableContext_new s p)) ! p) = Some (length (heap s)) \<and>
               \<not> isCancelled (snd (CancelableContext_new s p)) (length (heap s)) \<and>
               getCause (snd (CancelableContext_new s p)) (length (heap s)) = None)"
proof (cases "isCancelled s p")
  case True
  from assms have p: "p < length (heap s)"
    by (simp add: instanceofCancelable_def valid_def)
  from True assms p show ?thesis
    by (simp add: CancelableContext_new_def CancelableContext_ctor_canceled
          isCancelled_def getCause_def nth_heap_abort nth_heap_markCanceled nth_heap_alloc valid_alloc)
next
  case False
  from assms have p: "p < length (heap s)"
    by (simp add: instanceofCancelable_def valid_def)
  from False assms p show ?thesis
    by (simp add: CancelableContext_new_def CancelableContext_ctor_live
          isCancelled_def getCause_def nth_heap_upd nth_heap_alloc valid_alloc)
qed

theorem CancelableContext_new_inherits_witness:
  "instanceofCancelable ex_parent_canceled 1 \<and> isCancelled ex_parent_canceled 1 \<and>
   getCause ex_parent_canceled 1 = Some ''x'' \<and>
   fst (CancelableContext_new ex_parent_canceled 1) = Inr 2 \<and>
   isCancelled (snd (CancelableContext_new ex_parent_canceled 1)) 2 \<and>
   getCause (snd (CancelableContext_new ex_parent_canceled 1)) 2 = Some ''x'' \<and>
   children (heap (snd (CancelableContext_new ex_parent_canceled 1)) ! 1) = None \<and>
   instanceofCancelable ex_parent 1 \<and> \<not> isCancelled ex_parent 1 \<and>
   children (heap (snd (CancelableContext_new ex_parent 1)) ! 1) = Some 2"
proof -
  have a: "instanceofCancelable ex_parent_canceled 1" by code_simp
  have b: "isCancelled ex_parent_canceled 1" by code_simp
  have c: "getCause ex_parent_canceled 1 = Some ''x''" by code_simp
  have d: "length (heap ex_parent_canceled) = 2" by code_simp
  have e: "children (heap ex_parent_canceled ! 1) = None" by code_simp
  have f: "instanceofCancelable ex_parent 1" by code_simp
  have g: "\<not> isCancelled ex_parent 1" by code_simp
  have h: "length (heap ex_parent) = 2" by code_simp
  show ?thesis
    using CancelableContext_new_inherits [OF a] CancelableContext_new_inherits [OF f]
      a b c d e f g h
    by simp
qed

section \<open>A deadline context against a canceled parent\<close>

text \<open>
  Claim C6. The claim says that constructing a \<^verbatim>\<open>DeadlineContext\<close> against a parent that
  is already canceled with cause \<^verbatim>\<open>"x"\<close> returns normally. In the run
  \<^verbatim>\<open>parent.cancel("x"); new DeadlineContext(parent, 1000)\<close> the constructor throws a
  \<^verbatim>\<open>TypeError\<close> instead: \<^verbatim>\<open>super(parent)\<close> calls \<^verbatim>\<open>this.cancel\<close>, which is the
  override of \<^verbatim>\<open>DeadlineContext\<close>, and that calls \<^verbatim>\<open>this.doneResolve\<close> before the
  constructor has defined it.
\<close>

theorem DeadlineContext_new_canceled_parent_throws:
  "instanceofCancelable ex_parent_canceled 1 \<and> isCancelled ex_parent_canceled 1 \<and>
   getCause ex_parent_canceled 1 = Some ''x'' \<and>
   fst (DeadlineContext_new ex_parent_canceled 1 1000) = Inl TypeError"
  by code_simp


section \<open>The invariant and the primitive operations\<close>

lemma invD_obj: "inv s \<Longrightarrow> b < length (heap s) \<Longrightarrow> objOk (heap s ! b)"
  by (simp add: inv_def)

lemma invD_timer:
  "inv s \<Longrightarrow> (t, a) \<in> set (timers s) \<Longrightarrow> a < length (heap s) \<and> armed t (heap s ! a)"
  by (auto simp: inv_def)

lemma invD_job:
  "inv s \<Longrightarrow> (c, p) \<in> set (jobs s) \<Longrightarrow> p < length (heap s) \<and> cause (heap s ! p) \<noteq> None"
  by (auto simp: inv_def)

lemma invI:
  assumes "\<And>b. b < length (heap s) \<Longrightarrow> objOk (heap s ! b)"
    and "\<And>t a. (t, a) \<in> set (timers s) \<Longrightarrow> a < length (heap s) \<and> armed t (heap s ! a)"
    and "\<And>c p. (c, p) \<in> set (jobs s) \<Longrightarrow> p < length (heap s) \<and> cause (heap s ! p) \<noteq> None"
  shows "inv s"
  using assms by (auto simp: inv_def)

lemma objOk_cong:
  "cls ob' = cls ob \<Longrightarrow> canceled ob' = canceled ob \<Longrightarrow> cause ob' = cause ob \<Longrightarrow>
   (\<forall>ws. doneP ob = Pending ws \<longrightarrow> (\<exists>ws'. doneP ob' = Pending ws')) \<Longrightarrow>
   objOk ob \<Longrightarrow> objOk ob'"
  by (auto simp: objOk_def split: clazz.splits)

lemma armed_cong:
  "cls ob' = cls ob \<Longrightarrow> canceled ob' = canceled ob \<Longrightarrow> cause ob' = cause ob \<Longrightarrow>
   timeoutId ob' = timeoutId ob \<Longrightarrow> controller ob' = controller ob \<Longrightarrow>
   armed t ob \<Longrightarrow> armed t ob'"
  by (simp add: armed_def)

text \<open>
  An operation that keeps the timers, adds no microtask and changes in no object
  anything that the invariant reads keeps the invariant.
\<close>

lemma inv_cong:
  assumes "inv s" and "length (heap s') = length (heap s)" and "timers s' = timers s"
    and "set (jobs s') \<subseteq> set (jobs s)"
    and "\<And>b. b < length (heap s) \<Longrightarrow>
           cls (heap s' ! b) = cls (heap s ! b) \<and> canceled (heap s' ! b) = canceled (heap s ! b) \<and>
           cause (heap s' ! b) = cause (heap s ! b) \<and>
           timeoutId (heap s' ! b) = timeoutId (heap s ! b) \<and>
           controller (heap s' ! b) = controller (heap s ! b) \<and>
           (\<forall>ws. doneP (heap s ! b) = Pending ws \<longrightarrow> (\<exists>ws'. doneP (heap s' ! b) = Pending ws'))"
  shows "inv s'"
proof (rule invI)
  fix b assume "b < length (heap s')"
  then have b: "b < length (heap s)" using assms(2) by simp
  with assms(1) have "objOk (heap s ! b)" by (rule invD_obj)
  then show "objOk (heap s' ! b)"
    using assms(5) [OF b] by (intro objOk_cong [of "heap s' ! b" "heap s ! b"]) simp_all
next
  fix t a assume "(t, a) \<in> set (timers s')"
  with assms(1,3) have a: "a < length (heap s)" and ar: "armed t (heap s ! a)"
    by (simp_all add: invD_timer)
  have "armed t (heap s' ! a)"
    using assms(5) [OF a] ar by (intro armed_cong [of "heap s' ! a" "heap s ! a"]) simp_all
  with a assms(2) show "a < length (heap s') \<and> armed t (heap s' ! a)" by simp
next
  fix c p assume "(c, p) \<in> set (jobs s')"
  with assms(4) have "(c, p) \<in> set (jobs s)" by auto
  with assms(1) have p: "p < length (heap s)" and "cause (heap s ! p) \<noteq> None"
    by (auto dest: invD_job)
  with assms(5) [OF p] assms(2) show "p < length (heap s') \<and> cause (heap s' ! p) \<noteq> None"
    by simp
qed

lemma inv_emit [simp]: "inv (emit s es) = inv s"
  by (simp add: inv_def)

lemma inv_upd_callbacks:
  "inv s \<Longrightarrow> inv (upd s a (\<lambda>ob. ob\<lparr>cancelCallback := f ob\<rparr>))"
  by (erule inv_cong) simp_all

lemma inv_upd_children:
  "inv s \<Longrightarrow> inv (upd s p (\<lambda>ob. ob\<lparr>children := ch\<rparr>))"
  by (erule inv_cong) (simp_all add: nth_heap_upd)

lemma timers_clearTimeout:
  "timers (clearTimeout s a) =
     (case timeoutId (heap s ! a) of
        TimerId t \<Rightarrow> filter (\<lambda>(t', b). t' \<noteq> t) (timers s) | _ \<Rightarrow> timers s)"
  by (simp add: clearTimeout_def split: timeout_slot.split)

lemma inv_clearTimeout:
  assumes "inv s"
  shows "inv (clearTimeout s a)"
proof (rule invI)
  fix b assume "b < length (heap (clearTimeout s a))"
  then have "objOk (heap s ! b)" using assms by (simp add: invD_obj)
  then show "objOk (heap (clearTimeout s a) ! b)"
    by (rule objOk_cong [rotated -1]) simp_all
next
  fix t b assume tb: "(t, b) \<in> set (timers (clearTimeout s a))"
  then have mem: "(t, b) \<in> set (timers s)"
    by (auto simp: timers_clearTimeout split: timeout_slot.splits)
  with assms have b: "b < length (heap s)" and ar: "armed t (heap s ! b)"
    by (simp_all add: invD_timer)
  have "b \<noteq> a"
  proof
    assume "b = a"
    with ar have "timeoutId (heap s ! a) = TimerId t" by (simp add: armed_def)
    with tb show False by (simp add: timers_clearTimeout)
  qed
  with b ar show "b < length (heap (clearTimeout s a)) \<and> armed t (heap (clearTimeout s a) ! b)"
    by (simp add: nth_heap_clearTimeout)
next
  fix c p assume "(c, p) \<in> set (jobs (clearTimeout s a))"
  with assms show "p < length (heap (clearTimeout s a)) \<and> cause (heap (clearTimeout s a) ! p) \<noteq> None"
    by (auto dest: invD_job)
qed

lemma inv_markCanceled:
  assumes "inv s" and "instanceofCancelable s a" and "\<not> canceled (heap s ! a)"
    and "cls (heap s ! a) = DeadlineContextC \<longrightarrow> timeoutId (heap s ! a) = Null"
    and "c \<noteq> None"
  shows "inv (markCanceled s a c)"
proof (rule invI)
  fix b assume "b < length (heap (markCanceled s a c))"
  then have "objOk (heap s ! b)" using assms(1) by (simp add: invD_obj)
  then show "objOk (heap (markCanceled s a c) ! b)"
    using assms(5) by (auto simp: nth_heap_markCanceled objOk_def split: clazz.splits)
next
  fix t b assume "(t, b) \<in> set (timers (markCanceled s a c))"
  with assms(1) have b: "b < length (heap s)" and ar: "armed t (heap s ! b)"
    by (simp_all add: invD_timer)
  from ar assms(4) have "b \<noteq> a" by (auto simp: armed_def)
  with b ar show "b < length (heap (markCanceled s a c)) \<and> armed t (heap (markCanceled s a c) ! b)"
    by (simp add: nth_heap_markCanceled)
next
  fix k p assume "(k, p) \<in> set (jobs (markCanceled s a c))"
  with assms(1) have "p < length (heap s) \<and> cause (heap s ! p) \<noteq> None"
    by (auto dest: invD_job)
  with assms(5) show "p < length (heap (markCanceled s a c)) \<and>
                      cause (heap (markCanceled s a c) ! p) \<noteq> None"
    by (simp add: nth_heap_markCanceled)
qed

lemma inv_abort:
  assumes "inv s" and "canceled (heap s ! a) \<or> cause (heap s ! a) \<noteq> None"
  shows "inv (abort s a c)"
proof (rule invI)
  fix b assume "b < length (heap (abort s a c))"
  then have "objOk (heap s ! b)" using assms(1) by (simp add: invD_obj)
  then show "objOk (heap (abort s a c) ! b)"
    by (rule objOk_cong [rotated -1]) simp_all
next
  fix t b assume "(t, b) \<in> set (timers (abort s a c))"
  with assms(1) have b: "b < length (heap s)" and ar: "armed t (heap s ! b)"
    by (simp_all add: invD_timer)
  from ar assms(2) have "b \<noteq> a" by (auto simp: armed_def)
  with b ar show "b < length (heap (abort s a c)) \<and> armed t (heap (abort s a c) ! b)"
    by (simp add: nth_heap_abort)
next
  fix k p assume "(k, p) \<in> set (jobs (abort s a c))"
  with assms(1) show "p < length (heap (abort s a c)) \<and> cause (heap (abort s a c) ! p) \<noteq> None"
    by (auto dest: invD_job)
qed

lemma jobs_doneResolve:
  "jobs (snd (doneResolve s a c)) =
     jobs s @ (case doneP (heap s ! a) of Pending ws \<Rightarrow> map (\<lambda>w. (w, a)) ws | _ \<Rightarrow> [])"
  by (simp add: doneResolve_def split: promise.splits)

lemma inv_doneResolve:
  assumes "inv s" and "valid s a" and "cause (heap s ! a) \<noteq> None"
  shows "inv (snd (doneResolve s a c))"
proof (rule invI)
  fix b assume "b < length (heap (snd (doneResolve s a c)))"
  then have "objOk (heap s ! b)" using assms(1) by (simp add: invD_obj)
  then show "objOk (heap (snd (doneResolve s a c)) ! b)"
    using assms(3) by (auto simp: nth_heap_doneResolve objOk_def split: clazz.splits)
next
  fix t b assume "(t, b) \<in> set (timers (snd (doneResolve s a c)))"
  with assms(1) have b: "b < length (heap s)" and ar: "armed t (heap s ! b)"
    by (simp_all add: invD_timer)
  from ar show "b < length (heap (snd (doneResolve s a c))) \<and>
                armed t (heap (snd (doneResolve s a c)) ! b)"
    using b by (simp add: armed_def)
next
  fix k p assume "(k, p) \<in> set (jobs (snd (doneResolve s a c)))"
  then have "(k, p) \<in> set (jobs s) \<or> p = a"
    by (auto simp: jobs_doneResolve split: promise.splits)
  then show "p < length (heap (snd (doneResolve s a c))) \<and>
             cause (heap (snd (doneResolve s a c)) ! p) \<noteq> None"
    using assms by (auto dest: invD_job simp: valid_def)
qed

lemma canceled_has_cause:
  assumes "inv s" and "instanceofCancelable s p" and "canceled (heap s ! p)"
  shows "cause (heap s ! p) \<noteq> None"
proof -
  from assms(2) have "p < length (heap s)" and "cls (heap s ! p) \<noteq> ContextC"
    by (simp_all add: instanceofCancelable_def valid_def)
  with assms(1) have "objOk (heap s ! p)" by (simp add: invD_obj)
  with assms(3) \<open>cls (heap s ! p) \<noteq> ContextC\<close> show ?thesis
    by (cases "cls (heap s ! p)") (simp_all add: objOk_def)
qed

section \<open>The invariant and the frames\<close>

lemma stepFrame_FCancel:
  assumes "instanceofCancelable s a"
  shows "stepFrame s (FCancel a c) =
           (if canceled (heap s ! a)
            then (None, (if cls (heap s ! a) = DeadlineContextC then clearTimeout s a else s),
                  (if cls (heap s ! a) = DeadlineContextC then [FResolve a c] else []))
            else (None,
                  markCanceled (if cls (heap s ! a) = DeadlineContextC then clearTimeout s a else s) a c,
                  [FForEach a (cancelCallback (heap s ! a)), FAbort a c, FCascade a c] @
                  (if cls (heap s ! a) = DeadlineContextC then [FResolve a c] else [])))"
  using assms by (cases "cls (heap s ! a) = DeadlineContextC") (simp_all add: Let_def)

lemma frameOk_mono:
  assumes "frameOk s g" and "length (heap s') = length (heap s)"
    and "\<And>b. cls (heap s' ! b) = cls (heap s ! b)"
    and "\<And>b. canceled (heap s ! b) \<Longrightarrow> canceled (heap s' ! b)"
    and "\<And>b. cause (heap s ! b) \<noteq> None \<Longrightarrow> cause (heap s' ! b) \<noteq> None"
  shows "frameOk s' g"
  using assms by (cases g) (auto simp: instanceofCancelable_def valid_def)

lemma frameOk_emit [simp]: "frameOk (emit s es) g = frameOk s g"
  by (cases g) simp_all

lemma stepFrame_frames_mono:
  assumes "frameOk s f" and "stepFrame s f = (e, s', new)" and "frameOk s g"
  shows "frameOk s' g"
proof (rule frameOk_mono [OF assms(3)])
  show "length (heap s') = length (heap s)" using assms(2) by (rule stepFrame_keeps)
  show "cls (heap s' ! b) = cls (heap s ! b)" for b using assms(2) by (rule stepFrame_keeps)
  show "canceled (heap s' ! b)" if "canceled (heap s ! b)" for b
    using stepFrame_keeps(4) [OF assms(2) that] by simp
  show "cause (heap s' ! b) \<noteq> None" if "cause (heap s ! b) \<noteq> None" for b
  proof (cases f)
    case (FCancel a c)
    with assms(1) have c: "c \<noteq> None" by simp
    from assms(2) FCancel have "s' = s \<or> s' = clearTimeout s a \<or> s' = markCanceled s a c \<or>
        s' = markCanceled (clearTimeout s a) a c"
      by (auto simp: Let_def split: if_splits)
    with that c show ?thesis by (auto simp: nth_heap_markCanceled)
  next
    case (FOnCancel a cb)
    with assms(2) that show ?thesis by (auto split: if_splits)
  next
    case (FForEach a cbs)
    with assms(2) that show ?thesis by (cases cbs) auto
  next
    case (FBody ss x)
    have "s' = s"
    proof (cases ss)
      case Nil
      with assms(2) FBody show ?thesis by simp
    next
      case (Cons st ss')
      with assms(2) FBody show ?thesis by (cases st) simp_all
    qed
    with that show ?thesis by simp
  next
    case (FAbort a c)
    with assms(2) that show ?thesis by auto
  next
    case (FCascade a c)
    with assms(2) that show ?thesis by (auto split: option.splits)
  next
    case (FResolve a c)
    with assms(2) have "s' = snd (doneResolve s a c)" by (simp split: prod.splits)
    with that show ?thesis by simp
  qed
qed

lemma stepFrame_inv:
  assumes "inv s" and "frameOk s f" and "stepFrame s f = (e, s', new)"
  shows "inv s' \<and> list_all (frameOk s') new"
proof (cases f)
  case (FCancel a c)
  with assms(2) have c: "c \<noteq> None" by simp
  show ?thesis
  proof (cases "instanceofCancelable s a")
    case False
    with assms FCancel show ?thesis by simp
  next
    case True
    then have va: "valid s a" by (simp add: instanceofCancelable_def)
    define s0 where "s0 = (if cls (heap s ! a) = DeadlineContextC then clearTimeout s a else s)"
    have i0: "inv s0" using assms(1) by (simp add: s0_def inv_clearTimeout)
    have inst0: "instanceofCancelable s0 a" using True by (simp add: s0_def)
    have v0: "valid s0 a" using va by (simp add: s0_def)
    have can0: "canceled (heap s0 ! a) = canceled (heap s ! a)" by (simp add: s0_def)
    have tid0: "cls (heap s0 ! a) = DeadlineContextC \<longrightarrow> timeoutId (heap s0 ! a) = Null"
      using va by (simp add: s0_def nth_heap_clearTimeout)
    show ?thesis
    proof (cases "canceled (heap s ! a)")
      case can: True
      with assms(3) FCancel True
      have eq: "s' = s0" "new = (if cls (heap s ! a) = DeadlineContextC then [FResolve a c] else [])"
        by (simp_all add: stepFrame_FCancel s0_def del: stepFrame.simps(1))
      have "cause (heap s0 ! a) \<noteq> None"
        using i0 inst0 can can0 by (intro canceled_has_cause) simp_all
      with eq i0 v0 show ?thesis by simp
    next
      case live: False
      with assms(3) FCancel True
      have eq: "s' = markCanceled s0 a c"
        "new = [FForEach a (cancelCallback (heap s ! a)), FAbort a c, FCascade a c] @
               (if cls (heap s ! a) = DeadlineContextC then [FResolve a c] else [])"
        by (simp_all add: stepFrame_FCancel s0_def del: stepFrame.simps(1))
      have "inv (markCanceled s0 a c)"
        using i0 inst0 live can0 tid0 c by (intro inv_markCanceled) simp_all
      moreover have "canceled (heap (markCanceled s0 a c) ! a)"
        "cause (heap (markCanceled s0 a c) ! a) = c"
        using v0 by (simp_all add: nth_heap_markCanceled)
      ultimately show ?thesis using eq inst0 v0 c by simp
    qed
  qed
next
  case (FOnCancel a cb)
  show ?thesis
  proof (cases "instanceofCancelable s a")
    case False
    with assms FOnCancel show ?thesis by simp
  next
    case True
    show ?thesis
    proof (cases "canceled (heap s ! a)")
      case can: True
      with assms(1) True have "cause (heap s ! a) \<noteq> None" by (intro canceled_has_cause)
      with assms FOnCancel True can show ?thesis by auto
    next
      case False
      with assms FOnCancel True show ?thesis by (auto simp: inv_upd_callbacks)
    qed
  qed
next
  case (FForEach a cbs)
  show ?thesis
  proof (cases cbs)
    case Nil
    with assms FForEach show ?thesis by simp
  next
    case (Cons cb cbs')
    from assms(2) FForEach have inst: "instanceofCancelable s a" and can: "canceled (heap s ! a)"
      by simp_all
    with assms(1) have "cause (heap s ! a) \<noteq> None" by (intro canceled_has_cause)
    with assms FForEach Cons inst can show ?thesis by auto
  qed
next
  case (FBody ss x)
  show ?thesis
  proof (cases ss)
    case Nil
    with assms FBody show ?thesis by simp
  next
    case (Cons st ss')
    with assms FBody show ?thesis by (cases st) (auto split: causeArg.splits)
  qed
next
  case (FAbort a c)
  with assms show ?thesis by (auto simp: inv_abort)
next
  case (FCascade a c)
  with assms show ?thesis by (auto split: option.splits)
next
  case (FResolve a c)
  with assms(3) have "s' = snd (doneResolve s a c)" "new = []" by (simp_all split: prod.splits)
  with assms(1,2) FResolve show ?thesis by (simp add: inv_doneResolve)
qed

text \<open>A run from a state with the invariant, of frames that are in order, ends in one.\<close>

lemma inv_exec:
  assumes "inv s" and "list_all (frameOk s) fs"
  shows "inv (snd (exec s fs))"
proof -
  have "(\<lambda>r. inv (snd r)) (exec s fs)"
  proof (rule exec_rule [where Q = "\<lambda>s fs. inv s \<and> list_all (frameOk s) fs"])
    show "inv s \<and> list_all (frameOk s) fs" using assms by simp
  next
    fix s f fs s' new
    assume Q: "inv s \<and> list_all (frameOk s) (f # fs)" and st: "stepFrame s f = (None, s', new)"
    then have ok: "frameOk s f" by simp
    from Q have "list_all (frameOk s) fs" by simp
    then have "list_all (frameOk s') fs"
      using stepFrame_frames_mono [OF ok st] by (auto simp: list_all_iff)
    with stepFrame_inv [OF _ ok st] Q show "inv s' \<and> list_all (frameOk s') (new @ fs)"
      by simp
  next
    fix s f fs e s' new
    assume Q: "inv s \<and> list_all (frameOk s) (f # fs)" and st: "stepFrame s f = (Some e, s', new)"
    with stepFrame_inv [OF _ _ st] show "inv (snd (Some e, s'))" by simp
  qed simp
  then show ?thesis .
qed

lemma inv_cancel:
  assumes "inv s" and "c \<noteq> None"
  shows "inv (snd (cancel s a c))"
  unfolding cancel_def using assms by (intro inv_exec) simp_all

lemma inv_onCancel:
  assumes "inv s"
  shows "inv (snd (onCancel s a cb))"
  unfolding onCancel_def using assms by (intro inv_exec) simp_all

lemma inv_runJob:
  assumes "inv s"
  shows "inv (snd (runJob s))"
proof (cases "jobs s")
  case Nil
  with assms show ?thesis by (simp add: runJob_def)
next
  case (Cons j js)
  obtain c p where j: "j = (c, p)" by (cases j)
  have "(c, p) \<in> set (jobs s)" using Cons j by simp
  with assms have "cause (heap s ! p) \<noteq> None" by (auto dest: invD_job)
  moreover have "inv (s\<lparr>jobs := js\<rparr>)"
    using assms Cons by (auto simp: inv_def)
  ultimately show ?thesis
    using Cons j by (simp add: runJob_def getCause_def inv_cancel)
qed


lemma setCause_simps [simp]:
  "length (heap (setCause s a c)) = length (heap s)"
  "timers (setCause s a c) = timers s" "jobs (setCause s a c) = jobs s"
  "trace (setCause s a c) = trace s" "nextTimer (setCause s a c) = nextTimer s"
  by (simp_all add: setCause_def)


lemma valid_setCause [simp]: "valid (setCause s a c) b = valid s b"
  by (simp add: valid_def)


text \<open>The state before the call of \<^verbatim>\<open>doneResolve\<close> in \<^verbatim>\<open>finish\<close>.\<close>

lemma finish_unfold:
  assumes "valid s a"
  shows "finish s a =
           doneResolve (abort (setCause s a deadlineExceeded) a (Some deadlineExceeded)) a
             (Some deadlineExceeded)"
  using assms
  by (simp add: finish_def Let_def getCause_def setCause_def nth_heap_upd nth_heap_abort
        [unfolded setCause_def])

lemma nth_heap_finish:
  assumes "valid s a"
  shows "heap (snd (finish s a)) ! b =
     (if b = a
      then (heap s ! a)\<lparr>cause := Some deadlineExceeded,
             controller := (case controller (heap s ! a) of
                              NotAborted \<Rightarrow> Aborted (Some deadlineExceeded)
                            | Aborted r0 \<Rightarrow> Aborted r0),
             doneP := (case doneP (heap s ! a) of
                         Pending ws \<Rightarrow> Fulfilled (Some deadlineExceeded)
                       | NoPromise \<Rightarrow> NoPromise
                       | Fulfilled v \<Rightarrow> Fulfilled v)\<rparr>
      else heap s ! b)"
proof (cases "b = a")
  case False
  then show ?thesis
    using assms
    by (simp add: finish_unfold nth_heap_doneResolve nth_heap_abort setCause_def nth_heap_upd)
next
  case True
  show ?thesis
    using assms True
    by (cases "doneP (heap s ! a)")
       (simp_all add: finish_unfold nth_heap_doneResolve nth_heap_abort setCause_def nth_heap_upd)
qed

lemma trace_finish:
  assumes "valid s a"
  shows "\<exists>es. trace (snd (finish s a)) = trace s @ es \<and> filter isAnyListener es = []"
proof -
  obtain es' where "trace (snd (finish s a)) = (trace s @ [AbortCall a (Some deadlineExceeded)]) @ es'"
      and "filter isAnyListener es' = []"
    using trace_doneResolve [of "abort (setCause s a deadlineExceeded) a (Some deadlineExceeded)" a
        "Some deadlineExceeded"] assms
    by (auto simp: finish_unfold)
  then show ?thesis by simp
qed

lemma rest_finish [simp]:
  "timers (snd (finish s a)) = timers s" "nextTimer (snd (finish s a)) = nextTimer s"
  "length (heap (snd (finish s a))) = length (heap s)"
  by (simp_all add: finish_def Let_def)

lemma fireTimer_pending:
  "map_of (timers s) t = Some a \<Longrightarrow>
   fireTimer s t = finish (s\<lparr>timers := filter (\<lambda>(t', b). t' \<noteq> t) (timers s)\<rparr>) a"
  by (simp add: fireTimer_def)

lemma armed_state:
  fixes s1 :: state and timeoutMs :: nat
  assumes "a < length (heap s1)" and "heap s1 ! a = freshObj DeadlineContextC par"
  defines "s3 \<equiv> upd (initializeTimer s1 a timeoutMs) a (\<lambda>ob. ob\<lparr>doneP := Pending []\<rparr>)"
  shows "length (heap s3) = length (heap s1)"
    and "heap s3 ! b = (if b = a then (freshObj DeadlineContextC par)
                                      \<lparr>timeoutId := TimerId (nextTimer s1), doneP := Pending []\<rparr>
                        else heap s1 ! b)"
    and "timers s3 = timers s1 @ [(nextTimer s1, a)]"
    and "jobs s3 = jobs s1" and "trace s3 = trace s1"
  using assms(1,2)
  by (simp_all add: s3_def initializeTimer_def nth_heap_upd valid_def)

lemma awaitDone_simps [simp]:
  "length (heap (awaitDone s a p)) = length (heap s)"
  "timers (awaitDone s a p) = timers s" "trace (awaitDone s a p) = trace s"
  "nextTimer (awaitDone s a p) = nextTimer s"
  by (simp_all add: awaitDone_def split: promise.split)

lemma nth_heap_awaitDone:
  "heap (awaitDone s a p) ! b =
     (if b = p \<and> valid s p
      then (heap s ! p)\<lparr>doneP := (case doneP (heap s ! p) of
                                    Pending ws \<Rightarrow> Pending (ws @ [a]) | d \<Rightarrow> d)\<rparr>
      else heap s ! b)"
  by (cases "doneP (heap s ! p)") (simp_all add: awaitDone_def nth_heap_upd)

lemma jobs_awaitDone:
  "jobs (awaitDone s a p) =
     (case doneP (heap s ! p) of Pending ws \<Rightarrow> jobs s | _ \<Rightarrow> jobs s @ [(a, p)])"
  by (simp add: awaitDone_def split: promise.split)

lemma defineChildren_simps [simp]:
  "length (heap (snd (defineChildren s p a))) = length (heap s)"
  "timers (snd (defineChildren s p a)) = timers s" "trace (snd (defineChildren s p a)) = trace s"
  "jobs (snd (defineChildren s p a)) = jobs s"
  "nextTimer (snd (defineChildren s p a)) = nextTimer s"
  by (simp_all add: defineChildren_def split: option.split)

lemma nth_heap_defineChildren:
  "\<exists>ch. heap (snd (defineChildren s p a)) ! b =
     (if b = p then (heap s ! p)\<lparr>children := ch\<rparr> else heap s ! b)"
proof (cases "b = p")
  case False
  then show ?thesis
    by (simp add: defineChildren_def nth_heap_upd split: option.split)
next
  case True
  have "\<exists>ch. heap (snd (defineChildren s p a)) ! p = (heap s ! p)\<lparr>children := ch\<rparr>"
  proof (cases "valid s p \<and> (cls (heap s ! p) = ContextC \<longrightarrow> children (heap s ! p) = None)")
    case True
    then have "heap (snd (defineChildren s p a)) ! p = (heap s ! p)\<lparr>children := Some a\<rparr>"
      by (auto simp: defineChildren_def nth_heap_upd)
    then show ?thesis by blast
  next
    case False
    then have "heap (snd (defineChildren s p a)) ! p = heap s ! p"
      by (auto simp: defineChildren_def split: option.split)
    then have "heap (snd (defineChildren s p a)) ! p = (heap s ! p)\<lparr>children := children (heap s ! p)\<rparr>"
      by simp
    then show ?thesis by blast
  qed
  with True show ?thesis by simp
qed

text \<open>
  The state that the constructor leaves when the parent is not a canceled cancelable
  context, whether it returns or throws at the last \<^verbatim>\<open>Object.defineProperty\<close>: the new
  object has its timer armed and its promise pending; no old object has changed, except
  that the parent may have a new \<^verbatim>\<open>children\<close> and one more suspended \<^verbatim>\<open>await\<close>.
\<close>

lemma DeadlineContext_new_result:
  fixes timeoutMs :: nat
  assumes "valid s p" and "\<not> (instanceofCancelable s p \<and> canceled (heap s ! p))"
  defines "a \<equiv> length (heap s)"
  defines "s' \<equiv> snd (DeadlineContext_new s p timeoutMs)"
  shows "length (heap s') = Suc a"
    and "heap s' ! a = (freshObj DeadlineContextC (Some p))
                         \<lparr>timeoutId := TimerId (nextTimer s), doneP := Pending []\<rparr>"
    and "\<And>b. b < a \<Longrightarrow> b \<noteq> p \<Longrightarrow> heap s' ! b = heap s ! b"
    and "\<exists>ch d. heap s' ! p = (heap s ! p)\<lparr>children := ch, doneP := d\<rparr> \<and>
           (d = doneP (heap s ! p) \<or>
            (\<exists>ws. doneP (heap s ! p) = Pending ws \<and> d = Pending (ws @ [a])))"
    and "timers s' = timers s @ [(nextTimer s, a)]"
    and "jobs s' = jobs s \<or>
         (jobs s' = jobs s @ [(a, p)] \<and> cls (heap s ! p) = DeadlineContextC \<and>
          (\<forall>ws. doneP (heap s ! p) \<noteq> Pending ws))"
    and "trace s' = trace s"
proof -
  from assms(1) have p: "p < length (heap s)" by (simp add: valid_def)
  define s1 where "s1 = snd (CancelableContext_ctor s p DeadlineContextC)"
  have ctor: "CancelableContext_ctor s p DeadlineContextC = (Inr a, s1)"
    and len1: "length (heap s1) = Suc a"
    and new1: "heap s1 ! a = freshObj DeadlineContextC (Some p)"
    and old1: "\<And>b. b < a \<Longrightarrow> b \<noteq> p \<Longrightarrow> heap s1 ! b = heap s ! b"
    and p1: "\<exists>ch. heap s1 ! p = (heap s ! p)\<lparr>children := ch\<rparr>"
    and rest1: "timers s1 = timers s" "jobs s1 = jobs s" "trace s1 = trace s"
      "nextTimer s1 = nextTimer s"
  proof -
    show "CancelableContext_ctor s p DeadlineContextC = (Inr a, s1)"
      "length (heap s1) = Suc a" "heap s1 ! a = freshObj DeadlineContextC (Some p)"
      "timers s1 = timers s" "jobs s1 = jobs s" "trace s1 = trace s" "nextTimer s1 = nextTimer s"
      using assms(1,2) p
      by (cases "instanceofCancelable s p";
          simp add: s1_def a_def CancelableContext_ctor_live CancelableContext_ctor_plain
            isCancelled_def nth_heap_upd nth_heap_alloc)+
    show "heap s1 ! b = heap s ! b" if "b < a" "b \<noteq> p" for b
      using assms(1,2) that
      by (cases "instanceofCancelable s p")
         (simp_all add: s1_def a_def CancelableContext_ctor_live CancelableContext_ctor_plain
            isCancelled_def nth_heap_upd nth_heap_alloc)
    show "\<exists>ch. heap s1 ! p = (heap s ! p)\<lparr>children := ch\<rparr>"
    proof (cases "instanceofCancelable s p")
      case True
      with assms(2) p have "heap s1 ! p = (heap s ! p)\<lparr>children := Some a\<rparr>"
        by (simp add: s1_def a_def CancelableContext_ctor_live isCancelled_def nth_heap_upd
              nth_heap_alloc valid_alloc)
      then show ?thesis by blast
    next
      case False
      with assms(1) p have "heap s1 ! p = (heap s ! p)\<lparr>children := children (heap s ! p)\<rparr>"
        by (simp add: s1_def CancelableContext_ctor_plain nth_heap_alloc)
      then show ?thesis by blast
    qed
  qed
  define s3 where "s3 = upd (initializeTimer s1 a timeoutMs) a (\<lambda>ob. ob\<lparr>doneP := Pending []\<rparr>)"
  have a1: "a < length (heap s1)" using len1 by simp
  note S3 = armed_state [OF a1 new1, of timeoutMs, folded s3_def]
  have pa: "p \<noteq> a" using p by (simp add: a_def)
  obtain ch1 where ch1: "heap s1 ! p = (heap s ! p)\<lparr>children := ch1\<rparr>" using p1 by blast
  have p3: "heap s3 ! p = (heap s ! p)\<lparr>children := ch1\<rparr>"
    using pa ch1 by (simp add: S3(2))
  have inst3: "instanceofCancelable s3 p = instanceofCancelable s p"
    using p by (simp add: instanceofCancelable_def valid_def S3(1) len1 p3 a_def)
  have dead3: "instanceofDeadline s3 p \<longleftrightarrow> cls (heap s ! p) = DeadlineContextC"
    using p by (simp add: instanceofDeadline_def valid_def S3(1) len1 p3 a_def)
  have notc: "\<not> (instanceofCancelable s3 p \<and> isCancelled s3 p)"
    using assms(2) by (simp add: inst3 isCancelled_def p3)
  define s4 where "s4 = (if instanceofCancelable s3 p \<and> instanceofDeadline s3 p
                         then awaitDone s3 a p else s3)"
  have new: "DeadlineContext_new s p timeoutMs =
      (case defineChildren s4 p a of (Some e, s5) \<Rightarrow> (Inl e, s5) | (None, s5) \<Rightarrow> (Inr a, s5))"
    using notc by (auto simp: DeadlineContext_new_def ctor s3_def s4_def Let_def)
  have s': "s' = snd (defineChildren s4 p a)"
    by (simp add: s'_def new split: prod.split option.split)
  have len4: "length (heap s4) = Suc a" by (simp add: s4_def S3(1) len1)
  have v3: "valid s3 p" using p by (simp add: valid_def S3(1) len1 a_def)
  have h4: "heap s4 ! b = (if b = p then (heap s3 ! p)\<lparr>doneP :=
               (if cls (heap s ! p) = DeadlineContextC
                then (case doneP (heap s ! p) of Pending ws \<Rightarrow> Pending (ws @ [a]) | d \<Rightarrow> d)
                else doneP (heap s ! p))\<rparr> else heap s3 ! b)" for b
    using v3 by (auto simp: s4_def nth_heap_awaitDone dead3 inst3 p3 instanceofCancelable_def)
  obtain ch where h5: "heap s' ! b = (if b = p then (heap s4 ! p)\<lparr>children := ch\<rparr> else heap s4 ! b)"
    for b
  proof -
    have "\<exists>ch. \<forall>b. heap s' ! b = (if b = p then (heap s4 ! p)\<lparr>children := ch\<rparr> else heap s4 ! b)"
      using nth_heap_defineChildren [of s4 p a p]
      by (auto simp: s' defineChildren_def nth_heap_upd split: option.splits)
    then show ?thesis using that by blast
  qed
  show "length (heap s') = Suc a" by (simp add: s' len4)
  show "heap s' ! a = (freshObj DeadlineContextC (Some p))
                         \<lparr>timeoutId := TimerId (nextTimer s), doneP := Pending []\<rparr>"
    using pa by (simp add: h5 h4 S3(2) rest1)
  show "heap s' ! b = heap s ! b" if "b < a" "b \<noteq> p" for b
    using that by (simp add: h5 h4 S3(2) old1)
  show "\<exists>ch d. heap s' ! p = (heap s ! p)\<lparr>children := ch, doneP := d\<rparr> \<and>
           (d = doneP (heap s ! p) \<or>
            (\<exists>ws. doneP (heap s ! p) = Pending ws \<and> d = Pending (ws @ [a])))"
  proof -
    define d where "d = (if cls (heap s ! p) = DeadlineContextC
                then (case doneP (heap s ! p) of Pending ws \<Rightarrow> Pending (ws @ [a]) | d \<Rightarrow> d)
                else doneP (heap s ! p))"
    have "heap s' ! p = (heap s ! p)\<lparr>children := ch, doneP := d\<rparr>"
      by (simp add: h5 h4 p3 d_def)
    moreover have "d = doneP (heap s ! p) \<or>
            (\<exists>ws. doneP (heap s ! p) = Pending ws \<and> d = Pending (ws @ [a]))"
      by (cases "doneP (heap s ! p)") (simp_all add: d_def)
    ultimately show ?thesis by blast
  qed
  show "timers s' = timers s @ [(nextTimer s, a)]"
    by (simp add: s' s4_def S3(3) rest1)
  show "jobs s' = jobs s \<or>
         (jobs s' = jobs s @ [(a, p)] \<and> cls (heap s ! p) = DeadlineContextC \<and>
          (\<forall>ws. doneP (heap s ! p) \<noteq> Pending ws))"
    by (cases "doneP (heap s ! p)")
       (auto simp: s' s4_def S3(4) rest1 jobs_awaitDone dead3 p3)
  show "trace s' = trace s"
    by (simp add: s' s4_def S3(5) rest1)
qed

lemma inv_fireTimer:
  assumes "inv s"
  shows "inv (snd (fireTimer s t))"
proof (cases "map_of (timers s) t")
  case None
  with assms show ?thesis by (simp add: fireTimer_def)
next
  case (Some a)
  define s0 where "s0 = s\<lparr>timers := filter (\<lambda>(t', b). t' \<noteq> t) (timers s)\<rparr>"
  have eq: "fireTimer s t = finish s0 a" using Some by (simp add: fireTimer_pending s0_def)
  from Some have "(t, a) \<in> set (timers s)" by (rule map_of_SomeD)
  with assms have a: "a < length (heap s)" and ar: "armed t (heap s ! a)"
    by (simp_all add: invD_timer)
  have v0: "valid s0 a" using a by (simp add: s0_def valid_def)
  have h0: "heap s0 = heap s" by (simp add: s0_def)
  note N = nth_heap_finish [OF v0, unfolded h0]
  from assms a have ok: "objOk (heap s ! a)" by (simp add: invD_obj)
  show ?thesis
    unfolding eq
  proof (rule invI)
    fix b assume "b < length (heap (snd (finish s0 a)))"
    then have "objOk (heap s ! b)" using assms by (simp add: invD_obj h0)
    then show "objOk (heap (snd (finish s0 a)) ! b)"
      using ar ok by (auto simp: N objOk_def armed_def)
  next
    fix t' b assume "(t', b) \<in> set (timers (snd (finish s0 a)))"
    then have mem: "(t', b) \<in> set (timers s)" and ne: "t' \<noteq> t" by (auto simp: s0_def)
    with assms have b: "b < length (heap s)" and ar': "armed t' (heap s ! b)"
      by (simp_all add: invD_timer)
    from ar ar' ne have "b \<noteq> a" by (auto simp: armed_def)
    with b ar' show "b < length (heap (snd (finish s0 a))) \<and> armed t' (heap (snd (finish s0 a)) ! b)"
      by (simp add: N h0)
  next
    fix k p assume "(k, p) \<in> set (jobs (snd (finish s0 a)))"
    then have "(k, p) \<in> set (jobs s) \<or> p = a"
      using jobs_doneResolve [of "abort (setCause s0 a deadlineExceeded) a (Some deadlineExceeded)" a
          "Some deadlineExceeded"] v0
      by (auto simp: finish_unfold s0_def)
    then show "p < length (heap (snd (finish s0 a))) \<and> cause (heap (snd (finish s0 a)) ! p) \<noteq> None"
      using assms a by (auto dest: invD_job simp: N h0)
  qed
qed

section \<open>Constructors preserve the invariant\<close>

lemma inv_alloc:
  assumes "inv s" and "objOk ob"
  shows "inv (alloc s ob)"
proof (rule invI)
  fix b assume "b < length (heap (alloc s ob))"
  then have "b \<le> length (heap s)" by simp
  then show "objOk (heap (alloc s ob) ! b)"
    using assms by (auto simp: nth_heap_alloc invD_obj)
next
  fix t a assume "(t, a) \<in> set (timers (alloc s ob))"
  with assms(1) have "a < length (heap s) \<and> armed t (heap s ! a)" by (simp add: invD_timer)
  then show "a < length (heap (alloc s ob)) \<and> armed t (heap (alloc s ob) ! a)"
    by (simp add: nth_heap_alloc)
next
  fix c p assume "(c, p) \<in> set (jobs (alloc s ob))"
  with assms(1) have "p < length (heap s) \<and> cause (heap s ! p) \<noteq> None" by (auto dest: invD_job)
  then show "p < length (heap (alloc s ob)) \<and> cause (heap (alloc s ob) ! p) \<noteq> None"
    by (simp add: nth_heap_alloc)
qed

lemma objOk_fresh [simp]:
  "objOk (freshObj ContextC par)" "objOk (freshObj CancelableContextC par)"
  by (simp_all add: objOk_def)

lemma inv_Context_new: "inv s \<Longrightarrow> inv (snd (Context_new s par))"
  by (simp add: Context_new_def inv_alloc)

lemma inv_CancelableContext_new:
  assumes "inv s" and "valid s p"
  shows "inv (snd (CancelableContext_new s p))"
proof (cases "instanceofCancelable s p")
  case False
  with assms show ?thesis
    by (simp add: CancelableContext_new_def CancelableContext_ctor_plain inv_alloc)
next
  case True
  define s1 where "s1 = alloc s (freshObj CancelableContextC (Some p))"
  have i1: "inv s1" using assms(1) by (simp add: s1_def inv_alloc)
  show ?thesis
  proof (cases "canceled (heap s ! p)")
    case False
    with True have "snd (CancelableContext_new s p) =
        upd s1 p (\<lambda>ob. ob\<lparr>children := Some (length (heap s))\<rparr>)"
      by (simp add: CancelableContext_new_def CancelableContext_ctor_live isCancelled_def s1_def)
    with i1 show ?thesis by (simp add: inv_upd_children)
  next
    case c: True
    with True have eq: "snd (CancelableContext_new s p) =
        abort (markCanceled s1 (length (heap s)) (cause (heap s ! p))) (length (heap s))
          (cause (heap s ! p))"
      by (simp add: CancelableContext_new_def CancelableContext_ctor_canceled isCancelled_def
            getCause_def s1_def)
    have "instanceofCancelable s1 (length (heap s))"
      by (simp add: s1_def instanceofCancelable_def valid_def nth_heap_alloc)
    moreover have "\<not> canceled (heap s1 ! length (heap s))"
      and "cls (heap s1 ! length (heap s)) = CancelableContextC"
      by (simp_all add: s1_def nth_heap_alloc)
    moreover have "cause (heap s ! p) \<noteq> None"
      using assms(1) True c by (rule canceled_has_cause)
    ultimately have "inv (markCanceled s1 (length (heap s)) (cause (heap s ! p)))"
      using i1 by (intro inv_markCanceled) simp_all
    moreover have "canceled (heap (markCanceled s1 (length (heap s)) (cause (heap s ! p))) !
                     length (heap s))"
      by (simp add: nth_heap_markCanceled s1_def valid_alloc)
    ultimately show ?thesis
      unfolding eq by (intro inv_abort) simp_all
  qed
qed

lemma inv_DeadlineContext_new:
  fixes timeoutMs :: nat
  assumes "inv s" and "valid s p"
  shows "inv (snd (DeadlineContext_new s p timeoutMs))"
proof (cases "instanceofCancelable s p \<and> canceled (heap s ! p)")
  case True
  define a where "a = length (heap s)"
  define c where "c = cause (heap s ! p)"
  define s' where "s' = abort (markCanceled
      (clearTimeout (alloc s (freshObj DeadlineContextC (Some p))) a) a c) a c"
  have eq: "snd (DeadlineContext_new s p timeoutMs) = s'"
    using True
    by (simp add: DeadlineContext_new_def CancelableContext_ctor_canceled isCancelled_def
          getCause_def s'_def a_def c_def)
  have c: "c \<noteq> None"
    using assms(1) True unfolding c_def by (intro canceled_has_cause) simp_all
  have old: "heap s' ! b = heap s ! b" if "b < a" for b
    using that by (simp add: s'_def a_def nth_heap_abort nth_heap_markCanceled nth_heap_clearTimeout nth_heap_alloc)
  have new: "cls (heap s' ! a) = DeadlineContextC \<and> canceled (heap s' ! a) \<and> cause (heap s' ! a) = c"
    by (simp add: s'_def a_def nth_heap_abort nth_heap_markCanceled nth_heap_clearTimeout nth_heap_alloc valid_alloc)
  have len: "length (heap s') = Suc a" by (simp add: s'_def a_def)
  have tm: "timers s' = timers s"
    by (simp add: s'_def a_def timers_clearTimeout nth_heap_alloc)
  have jb: "jobs s' = jobs s" by (simp add: s'_def)
  show ?thesis
    unfolding eq
  proof (rule invI)
    fix b assume "b < length (heap s')"
    then have "b < a \<or> b = a" using len by auto
    then show "objOk (heap s' ! b)"
    proof
      assume "b < a"
      with assms(1) show ?thesis by (simp add: old invD_obj a_def)
    next
      assume "b = a"
      with new c show ?thesis by (auto simp: objOk_def)
    qed
  next
    fix t b assume "(t, b) \<in> set (timers s')"
    with assms(1) tm have "b < length (heap s) \<and> armed t (heap s ! b)" by (simp add: invD_timer)
    then show "b < length (heap s') \<and> armed t (heap s' ! b)"
      using len by (simp add: old a_def)
  next
    fix k q assume "(k, q) \<in> set (jobs s')"
    with assms(1) jb have "q < length (heap s) \<and> cause (heap s ! q) \<noteq> None"
      by (auto dest: invD_job)
    then show "q < length (heap s') \<and> cause (heap s' ! q) \<noteq> None"
      using len by (simp add: old a_def)
  qed
next
  case False
  define a where "a = length (heap s)"
  define s' where "s' = snd (DeadlineContext_new s p timeoutMs)"
  note R = DeadlineContext_new_result [OF assms(2) False, where timeoutMs = timeoutMs, folded a_def s'_def]
  from assms(2) have p: "p < a" by (simp add: valid_def a_def)
  obtain ch d where hp: "heap s' ! p = (heap s ! p)\<lparr>children := ch, doneP := d\<rparr>"
    and d: "d = doneP (heap s ! p) \<or> (\<exists>ws. doneP (heap s ! p) = Pending ws \<and> d = Pending (ws @ [a]))"
    using R(4) by blast
  have okp: "objOk (heap s ! p)" using assms(1) p by (simp add: invD_obj a_def)
  have core: "cls (heap s' ! b) = cls (heap s ! b) \<and> canceled (heap s' ! b) = canceled (heap s ! b) \<and>
              cause (heap s' ! b) = cause (heap s ! b) \<and> timeoutId (heap s' ! b) = timeoutId (heap s ! b) \<and>
              controller (heap s' ! b) = controller (heap s ! b) \<and>
              (\<forall>ws. doneP (heap s ! b) = Pending ws \<longrightarrow> (\<exists>ws'. doneP (heap s' ! b) = Pending ws'))"
    if "b < a" for b
  proof (cases "b = p")
    case True
    with hp d show ?thesis by auto
  next
    case False
    with that show ?thesis by (simp add: R(3))
  qed
  show ?thesis
    unfolding s'_def [symmetric]
  proof (rule invI)
    fix b assume "b < length (heap s')"
    then have "b < a \<or> b = a" using R(1) by auto
    then show "objOk (heap s' ! b)"
    proof
      assume b: "b < a"
      with assms(1) have "objOk (heap s ! b)" by (simp add: invD_obj a_def)
      then show ?thesis using core [OF b] by (intro objOk_cong [of "heap s' ! b" "heap s ! b"]) simp_all
    next
      assume "b = a"
      then show ?thesis by (simp add: R(2) objOk_def)
    qed
  next
    fix t b assume "(t, b) \<in> set (timers s')"
    then have "(t, b) \<in> set (timers s) \<or> (t = nextTimer s \<and> b = a)" by (auto simp: R(5))
    then show "b < length (heap s') \<and> armed t (heap s' ! b)"
    proof
      assume "(t, b) \<in> set (timers s)"
      with assms(1) have b: "b < a" and ar: "armed t (heap s ! b)"
        by (simp_all add: invD_timer a_def)
      have "armed t (heap s' ! b)"
        using core [OF b] ar by (intro armed_cong [of "heap s' ! b" "heap s ! b"]) simp_all
      with b R(1) show ?thesis by simp
    next
      assume "t = nextTimer s \<and> b = a"
      then show ?thesis by (simp add: R(1) R(2) armed_def)
    qed
  next
    fix k q assume kq: "(k, q) \<in> set (jobs s')"
    have "(k, q) \<in> set (jobs s) \<or>
          (q = p \<and> cls (heap s ! p) = DeadlineContextC \<and> (\<forall>ws. doneP (heap s ! p) \<noteq> Pending ws))"
      using R(6) kq by auto
    then show "q < length (heap s') \<and> cause (heap s' ! q) \<noteq> None"
    proof
      assume "(k, q) \<in> set (jobs s)"
      with assms(1) have q: "q < a" and "cause (heap s ! q) \<noteq> None"
        by (auto dest: invD_job simp: a_def)
      with core [OF q] R(1) show ?thesis by simp
    next
      assume q: "q = p \<and> cls (heap s ! p) = DeadlineContextC \<and> (\<forall>ws. doneP (heap s ! p) \<noteq> Pending ws)"
      with okp have "cause (heap s ! p) \<noteq> None" by (auto simp: objOk_def)
      with q core [OF p] p R(1) show ?thesis by simp
    qed
  qed
qed

lemma inv_init: "inv init"
  by (simp add: inv_def init_def)

lemma step_inv:
  assumes "step s s'" and "inv s"
  shows "inv s'"
  using assms
  by (induction rule: step.induct)
     (simp_all add: inv_Context_new inv_CancelableContext_new inv_DeadlineContext_new
        inv_cancel inv_onCancel inv_fireTimer inv_runJob)

lemma reachable_inv: "reachable s \<Longrightarrow> inv s"
  by (induction rule: reachable.induct) (simp_all add: inv_init step_inv)

section \<open>The example runs are reachable\<close>

lemma reachable_ex_root: "reachable ex_root"
  unfolding ex_root_def todo_def by (rule r_step [OF r_init s_root])

lemma valid_ex_root: "valid ex_root 0"
  by code_simp

lemma reachable_ex_parent: "reachable ex_parent"
  unfolding ex_parent_def by (rule r_step [OF reachable_ex_root s_cancelable [OF valid_ex_root]])

lemma instanceofCancelable_ex_parent: "instanceofCancelable ex_parent 1"
  by code_simp

lemma reachable_ex_parent_canceled: "reachable ex_parent_canceled"
  unfolding ex_parent_canceled_def
  by (rule r_step [OF reachable_ex_parent s_cancel [OF instanceofCancelable_ex_parent]])

lemma reachable_ex_deadline: "reachable ex_deadline"
  unfolding ex_deadline_def by (rule r_step [OF reachable_ex_root s_deadline [OF valid_ex_root]])

lemma reachable_ex_expired: "reachable ex_expired"
  unfolding ex_expired_def by (rule r_step [OF reachable_ex_deadline s_timer])

section \<open>Cause and canceled flag\<close>

text \<open>
  Claim C7 says that in every reachable state \<^verbatim>\<open>getCause()\<close> is non-null exactly when
  \<^verbatim>\<open>isCancelled()\<close> is true. After \<^verbatim>\<open>new DeadlineContext(Context.todo(), 1000)\<close> and the
  expiry of its timer the cause is \<^verbatim>\<open>"context deadline exceeded"\<close> and \<^verbatim>\<open>isCancelled()\<close>
  is false, which is what the tests of the repository assert.
\<close>

theorem cause_without_canceled_after_expiry:
  "reachable ex_expired \<and> valid ex_expired 1 \<and>
   cls (heap ex_expired ! 1) = DeadlineContextC \<and>
   \<not> (getCause ex_expired 1 \<noteq> None \<longleftrightarrow> isCancelled ex_expired 1)"
proof -
  have "valid ex_expired 1 \<and> cls (heap ex_expired ! 1) = DeadlineContextC \<and>
        \<not> (getCause ex_expired 1 \<noteq> None \<longleftrightarrow> isCancelled ex_expired 1)"
    by code_simp
  with reachable_ex_expired show ?thesis by simp
qed

text \<open>
  Claim C7, amended. In every reachable state, an object created as
  \<^verbatim>\<open>CancelableContext\<close> has a non-null cause exactly when it is canceled. For a
  \<^verbatim>\<open>DeadlineContext\<close>, canceled implies a non-null cause, and a non-null cause implies
  that the context is canceled or that the cause is \<^verbatim>\<open>"context deadline exceeded"\<close>.
\<close>

theorem cause_and_canceled_reachable:
  assumes "reachable s" and "valid s a"
  shows "(cls (heap s ! a) = CancelableContextC \<longrightarrow>
            (getCause s a \<noteq> None \<longleftrightarrow> isCancelled s a)) \<and>
         (cls (heap s ! a) = DeadlineContextC \<longrightarrow>
            (isCancelled s a \<longrightarrow> getCause s a \<noteq> None) \<and>
            (getCause s a \<noteq> None \<longrightarrow>
               isCancelled s a \<or> getCause s a = Some ''context deadline exceeded''))"
proof -
  from assms have "objOk (heap s ! a)"
    by (simp add: reachable_inv invD_obj valid_def)
  then show ?thesis
    by (cases "cls (heap s ! a)")
       (auto simp: objOk_def getCause_def isCancelled_def deadlineExceeded_def)
qed

theorem cause_and_canceled_reachable_witness:
  "reachable ex_parent_canceled \<and> valid ex_parent_canceled 1 \<and>
   cls (heap ex_parent_canceled ! 1) = CancelableContextC \<and>
   isCancelled ex_parent_canceled 1 \<and> getCause ex_parent_canceled 1 \<noteq> None \<and>
   reachable ex_parent \<and> valid ex_parent 1 \<and> cls (heap ex_parent ! 1) = CancelableContextC \<and>
   \<not> isCancelled ex_parent 1 \<and> getCause ex_parent 1 = None \<and>
   reachable ex_expired \<and> valid ex_expired 1 \<and> cls (heap ex_expired ! 1) = DeadlineContextC \<and>
   getCause ex_expired 1 \<noteq> None \<and> \<not> isCancelled ex_expired 1 \<and>
   getCause ex_expired 1 = Some ''context deadline exceeded''"
proof -
  have a: "valid ex_parent_canceled 1" "cls (heap ex_parent_canceled ! 1) = CancelableContextC"
    "isCancelled ex_parent_canceled 1"
    by code_simp+
  have b: "valid ex_parent 1" "cls (heap ex_parent ! 1) = CancelableContextC"
    "\<not> isCancelled ex_parent 1"
    by code_simp+
  have c: "valid ex_expired 1" "cls (heap ex_expired ! 1) = DeadlineContextC"
    "\<not> isCancelled ex_expired 1" "getCause ex_expired 1 \<noteq> None"
    by code_simp+
  from cause_and_canceled_reachable [OF reachable_ex_parent_canceled a(1)] a
  have 1: "getCause ex_parent_canceled 1 \<noteq> None" by simp
  from cause_and_canceled_reachable [OF reachable_ex_parent b(1)] b
  have 2: "getCause ex_parent 1 = None" by simp
  from cause_and_canceled_reachable [OF reachable_ex_expired c(1)] c
  have 3: "getCause ex_expired 1 = Some ''context deadline exceeded''" by simp
  from a b c 1 2 3 reachable_ex_parent_canceled reachable_ex_parent reachable_ex_expired
  show ?thesis by blast
qed

section \<open>Expiry of the deadline\<close>

lemma finish_pending:
  assumes "valid s a" and "doneP (heap s ! a) = Pending ws"
  shows "fst (finish s a) = None"
    and "trace (snd (finish s a)) =
           trace s @ [AbortCall a (Some deadlineExceeded), ResolveCall a (Some deadlineExceeded)]"
  using assms
  by (simp_all add: finish_unfold doneResolve_def nth_heap_abort setCause_def nth_heap_upd)

text \<open>
  Claim C9. In a reachable state the target of a pending timer is a deadline context
  that is not canceled and has no cause: whatever cancels a deadline context clears its
  timer first. When the timer fires, \<^verbatim>\<open>finish\<close> returns normally; the cause becomes
  \<^verbatim>\<open>"context deadline exceeded"\<close>, the controller is aborted with that reason, the
  promise \<^verbatim>\<open>done\<close> is fulfilled with it, and these two calls are all that the trace gains.
\<close>

theorem deadline_expiry:
  assumes "reachable s" and "map_of (timers s) t = Some a"
  shows "cls (heap s ! a) = DeadlineContextC \<and> \<not> isCancelled s a \<and> getCause s a = None \<and>
         fst (fireTimer s t) = None \<and>
         getCause (snd (fireTimer s t)) a = Some ''context deadline exceeded'' \<and>
         getController (snd (fireTimer s t)) a = Aborted (Some ''context deadline exceeded'') \<and>
         doneP (heap (snd (fireTimer s t)) ! a) = Fulfilled (Some ''context deadline exceeded'') \<and>
         trace (snd (fireTimer s t)) =
           trace s @ [AbortCall a (Some ''context deadline exceeded''),
                      ResolveCall a (Some ''context deadline exceeded'')]"
proof -
  from assms(1) have i: "inv s" by (rule reachable_inv)
  from assms(2) have "(t, a) \<in> set (timers s)" by (rule map_of_SomeD)
  with i have a: "a < length (heap s)" and ar: "armed t (heap s ! a)"
    by (simp_all add: invD_timer)
  from i a have "objOk (heap s ! a)" by (rule invD_obj)
  with ar obtain ws where ws: "doneP (heap s ! a) = Pending ws"
    by (auto simp: objOk_def armed_def)
  define s0 where "s0 = s\<lparr>timers := filter (\<lambda>(t', b). t' \<noteq> t) (timers s)\<rparr>"
  have eq: "fireTimer s t = finish s0 a" using assms(2) by (simp add: fireTimer_pending s0_def)
  have v0: "valid s0 a" using a by (simp add: s0_def valid_def)
  have h0: "heap s0 = heap s" and t0: "trace s0 = trace s" by (simp_all add: s0_def)
  note N = nth_heap_finish [OF v0, unfolded h0, of a]
  note F = finish_pending [OF v0, unfolded h0 t0, OF ws]
  show ?thesis
    unfolding eq isCancelled_def getCause_def getController_def
    using ar ws F by (simp add: N armed_def deadlineExceeded_def)
qed

theorem deadline_expiry_witness:
  "reachable ex_deadline \<and> map_of (timers ex_deadline) 0 = Some 1 \<and>
   \<not> isCancelled ex_deadline 1 \<and> getCause ex_deadline 1 = None \<and>
   fst (fireTimer ex_deadline 0) = None \<and>
   getCause (snd (fireTimer ex_deadline 0)) 1 = Some ''context deadline exceeded'' \<and>
   getController (snd (fireTimer ex_deadline 0)) 1 = Aborted (Some ''context deadline exceeded'') \<and>
   doneP (heap (snd (fireTimer ex_deadline 0)) ! 1) = Fulfilled (Some ''context deadline exceeded'')"
proof -
  have a: "map_of (timers ex_deadline) 0 = Some 1" by code_simp
  from deadline_expiry [OF reachable_ex_deadline a] reachable_ex_deadline a
  show ?thesis by blast
qed


section \<open>What later states keep\<close>

lemma settled_refl [simp]: "settled ob ob"
  by (simp add: settled_def)

lemma settled_trans: "settled ob ob' \<Longrightarrow> settled ob' ob'' \<Longrightarrow> settled ob ob''"
  by (auto simp: settled_def)

lemma stable_refl [simp]: "stable s s"
  by (simp add: stable_def)

lemma stable_trans:
  assumes "stable s s'" and "stable s' s''"
  shows "stable s s''"
  unfolding stable_def
proof (intro conjI allI impI)
  show "length (heap s) \<le> length (heap s'')"
    using assms by (simp add: stable_def)
  fix b assume b: "b < length (heap s)"
  with assms(1) have "settled (heap s ! b) (heap s' ! b)" and "b < length (heap s')"
    by (simp_all add: stable_def)
  moreover from this assms(2) have "settled (heap s' ! b) (heap s'' ! b)"
    by (simp add: stable_def)
  ultimately show "settled (heap s ! b) (heap s'' ! b)" by (blast intro: settled_trans)
qed

lemma stableI:
  assumes "length (heap s) \<le> length (heap s')"
    and "\<And>b. b < length (heap s) \<Longrightarrow> settled (heap s ! b) (heap s' ! b)"
  shows "stable s s'"
  using assms by (simp add: stable_def)

lemma stable_clearTimeout: "stable s (clearTimeout s a)"
  by (rule stableI) (simp_all add: settled_def)

lemma stable_markCanceled: "\<not> canceled (heap s ! a) \<Longrightarrow> stable s (markCanceled s a c)"
  by (rule stableI) (auto simp: settled_def nth_heap_markCanceled)

lemma stable_abort: "stable s (abort s a c)"
  by (rule stableI) (auto simp: settled_def nth_heap_abort split: signal.splits)

lemma stable_emit: "stable s (emit s es)"
  by (rule stableI) simp_all

lemma stable_upd_callbacks: "stable s (upd s a (\<lambda>ob. ob\<lparr>cancelCallback := f ob\<rparr>))"
  by (rule stableI) (simp_all add: settled_def nth_heap_upd)

lemma stable_doneResolve: "stable s (snd (doneResolve s a c))"
  by (rule stableI) (auto simp: settled_def nth_heap_doneResolve)

lemma stepFrame_stable:
  assumes "stepFrame s f = (e, s', new)"
  shows "stable s s'"
  using assms
proof (cases rule: stepFrame_cases)
  case (markClear a c)
  have "stable s (clearTimeout s a)" by (rule stable_clearTimeout)
  moreover have "stable (clearTimeout s a) (markCanceled (clearTimeout s a) a c)"
    using markClear by (intro stable_markCanceled) simp
  ultimately show ?thesis using markClear by (blast intro: stable_trans)
qed (simp_all add: stable_clearTimeout stable_markCanceled stable_emit stable_upd_callbacks
       stable_abort stable_doneResolve)

lemma stable_exec: "stable s (snd (exec s fs))"
proof -
  have "stable s s" by simp
  then show ?thesis
  proof (rule exec_preserves [where P = "stable s"])
    fix t f e t' new
    assume "stable s t" and "stepFrame t f = (e, t', new)"
    then show "stable s t'" by (blast intro: stable_trans stepFrame_stable)
  qed
qed

lemma stable_cancel: "stable s (snd (cancel s a c))"
  unfolding cancel_def by (rule stable_exec)

lemma stable_onCancel: "stable s (snd (onCancel s a cb))"
  unfolding onCancel_def by (rule stable_exec)

lemma stable_alloc: "stable s (alloc s ob)"
  by (rule stableI) (simp_all add: nth_heap_alloc)

lemma stable_upd_children: "stable s (upd s p (\<lambda>ob. ob\<lparr>children := ch\<rparr>))"
  by (rule stableI) (simp_all add: settled_def nth_heap_upd)

lemma stable_Context_new: "stable s (snd (Context_new s par))"
  by (simp add: Context_new_def stable_alloc)

lemma stable_CancelableContext_new:
  assumes "valid s p"
  shows "stable s (snd (CancelableContext_new s p))"
proof (cases "instanceofCancelable s p")
  case False
  with assms show ?thesis
    by (simp add: CancelableContext_new_def CancelableContext_ctor_plain stable_alloc)
next
  case True
  define s1 where "s1 = alloc s (freshObj CancelableContextC (Some p))"
  have 1: "stable s s1" by (simp add: s1_def stable_alloc)
  show ?thesis
  proof (cases "canceled (heap s ! p)")
    case False
    with True have "snd (CancelableContext_new s p) =
        upd s1 p (\<lambda>ob. ob\<lparr>children := Some (length (heap s))\<rparr>)"
      by (simp add: CancelableContext_new_def CancelableContext_ctor_live isCancelled_def s1_def)
    with 1 show ?thesis by (auto intro: stable_trans stable_upd_children)
  next
    case c: True
    with True have eq: "snd (CancelableContext_new s p) =
        abort (markCanceled s1 (length (heap s)) (cause (heap s ! p))) (length (heap s))
          (cause (heap s ! p))"
      by (simp add: CancelableContext_new_def CancelableContext_ctor_canceled isCancelled_def
            getCause_def s1_def)
    have "\<not> canceled (heap s1 ! length (heap s))" by (simp add: s1_def nth_heap_alloc)
    then have "stable s1 (markCanceled s1 (length (heap s)) (cause (heap s ! p)))"
      by (rule stable_markCanceled)
    with 1 eq show ?thesis by (auto intro: stable_trans stable_abort)
  qed
qed

lemma stable_DeadlineContext_new:
  fixes timeoutMs :: nat
  assumes "valid s p"
  shows "stable s (snd (DeadlineContext_new s p timeoutMs))"
proof (cases "instanceofCancelable s p \<and> canceled (heap s ! p)")
  case True
  define s1 where "s1 = alloc s (freshObj DeadlineContextC (Some p))"
  have eq: "snd (DeadlineContext_new s p timeoutMs) =
      abort (markCanceled (clearTimeout s1 (length (heap s))) (length (heap s)) (cause (heap s ! p)))
        (length (heap s)) (cause (heap s ! p))"
    using True
    by (simp add: DeadlineContext_new_def CancelableContext_ctor_canceled isCancelled_def
          getCause_def s1_def)
  have "\<not> canceled (heap (clearTimeout s1 (length (heap s))) ! length (heap s))"
    by (simp add: s1_def nth_heap_alloc)
  then have "stable (clearTimeout s1 (length (heap s)))
      (markCanceled (clearTimeout s1 (length (heap s))) (length (heap s)) (cause (heap s ! p)))"
    by (rule stable_markCanceled)
  moreover have "stable
      (markCanceled (clearTimeout s1 (length (heap s))) (length (heap s)) (cause (heap s ! p)))
      (abort (markCanceled (clearTimeout s1 (length (heap s))) (length (heap s)) (cause (heap s ! p)))
        (length (heap s)) (cause (heap s ! p)))"
    by (rule stable_abort)
  moreover have "stable s s1" by (simp add: s1_def stable_alloc)
  moreover have "stable s1 (clearTimeout s1 (length (heap s)))" by (rule stable_clearTimeout)
  ultimately show ?thesis unfolding eq by (blast intro: stable_trans)
next
  case False
  define a where "a = length (heap s)"
  define s' where "s' = snd (DeadlineContext_new s p timeoutMs)"
  note R = DeadlineContext_new_result [OF assms False, where timeoutMs = timeoutMs,
      folded a_def s'_def]
  obtain ch d where hp: "heap s' ! p = (heap s ! p)\<lparr>children := ch, doneP := d\<rparr>"
    and d: "d = doneP (heap s ! p) \<or> (\<exists>ws. doneP (heap s ! p) = Pending ws \<and> d = Pending (ws @ [a]))"
    using R(4) by blast
  show ?thesis
    unfolding s'_def [symmetric]
  proof (rule stableI)
    show "length (heap s) \<le> length (heap s')" by (simp add: R(1) a_def)
    fix b assume b: "b < length (heap s)"
    show "settled (heap s ! b) (heap s' ! b)"
    proof (cases "b = p")
      case True
      with hp d show ?thesis by (auto simp: settled_def)
    next
      case False
      with b show ?thesis by (simp add: R(3) a_def)
    qed
  qed
qed

lemma stable_fireTimer:
  assumes "inv s"
  shows "stable s (snd (fireTimer s t))"
proof (cases "map_of (timers s) t")
  case None
  then show ?thesis by (simp add: fireTimer_def)
next
  case (Some a)
  define s0 where "s0 = s\<lparr>timers := filter (\<lambda>(t', b). t' \<noteq> t) (timers s)\<rparr>"
  have eq: "fireTimer s t = finish s0 a" using Some by (simp add: fireTimer_pending s0_def)
  from Some have "(t, a) \<in> set (timers s)" by (rule map_of_SomeD)
  with assms have a: "a < length (heap s)" and ar: "armed t (heap s ! a)"
    by (simp_all add: invD_timer)
  have v0: "valid s0 a" using a by (simp add: s0_def valid_def)
  have h0: "heap s0 = heap s" by (simp add: s0_def)
  note N = nth_heap_finish [OF v0, unfolded h0]
  show ?thesis
    unfolding eq
  proof (rule stableI)
    show "length (heap s) \<le> length (heap (snd (finish s0 a)))" by (simp add: h0)
    fix b assume "b < length (heap s)"
    show "settled (heap s ! b) (heap (snd (finish s0 a)) ! b)"
      using ar by (auto simp: N settled_def armed_def)
  qed
qed

lemma stable_runJob: "stable s (snd (runJob s))"
proof (cases "jobs s")
  case Nil
  then show ?thesis by (simp add: runJob_def)
next
  case (Cons j js)
  obtain c p where j: "j = (c, p)" by (cases j)
  have "stable s (s\<lparr>jobs := js\<rparr>)" by (rule stableI) simp_all
  moreover have "stable (s\<lparr>jobs := js\<rparr>) (snd (cancel (s\<lparr>jobs := js\<rparr>) c (getCause s p)))"
    by (rule stable_cancel)
  ultimately show ?thesis
    using Cons j by (auto simp: runJob_def intro: stable_trans)
qed

lemma step_stable:
  assumes "step s s'" and "inv s"
  shows "stable s s'"
  using assms
  by (induction rule: step.induct)
     (simp_all add: stable_Context_new stable_CancelableContext_new stable_DeadlineContext_new
        stable_cancel stable_onCancel stable_fireTimer stable_runJob)

lemma steps_stable:
  assumes "step\<^sup>*\<^sup>* s s'" and "reachable s"
  shows "stable s s' \<and> reachable s'"
  using assms
proof (induction rule: rtranclp_induct)
  case base
  then show ?case by simp
next
  case (step y z)
  then have "stable s y" and ry: "reachable y" by simp_all
  moreover have "stable y z" using step.hyps(2) ry by (simp add: step_stable reachable_inv)
  moreover have "reachable z" using ry step.hyps(2) by (rule r_step)
  ultimately show ?case by (blast intro: stable_trans)
qed


section \<open>The first cause and later steps\<close>

lemma instanceofCancelable_ex_deadline: "instanceofCancelable ex_deadline 1"
  by code_simp

lemma reachable_ex_deadline_canceled: "reachable ex_deadline_canceled"
  unfolding ex_deadline_canceled_def
  by (rule r_step [OF reachable_ex_deadline s_cancel [OF instanceofCancelable_ex_deadline]])

lemma instanceofCancelable_ex_expired: "instanceofCancelable ex_expired 1"
  by code_simp

lemma instanceofCancelable_ex_deadline_canceled: "instanceofCancelable ex_deadline_canceled 1"
  by code_simp

text \<open>
  Claim C8 says that once a deadline context has a cause, by whatever path, no later
  \<^verbatim>\<open>cancel\<close> changes \<^verbatim>\<open>isCancelled()\<close>, \<^verbatim>\<open>getCause()\<close> or the value of \<^verbatim>\<open>done\<close>. After
  the timer of \<^verbatim>\<open>new DeadlineContext(Context.todo(), 1000)\<close> has fired, the cause is
  \<^verbatim>\<open>"context deadline exceeded"\<close> and \<^verbatim>\<open>isCancelled()\<close> is false; \<^verbatim>\<open>cancel("b")\<close> then
  returns normally with \<^verbatim>\<open>isCancelled()\<close> true and the cause \<^verbatim>\<open>"b"\<close>, while \<^verbatim>\<open>done\<close>
  keeps the value \<^verbatim>\<open>"context deadline exceeded"\<close>.
\<close>

theorem cause_replaced_after_expiry:
  "reachable ex_expired \<and> cls (heap ex_expired ! 1) = DeadlineContextC \<and>
   \<not> isCancelled ex_expired 1 \<and>
   getCause ex_expired 1 = Some ''context deadline exceeded'' \<and>
   doneP (heap ex_expired ! 1) = Fulfilled (Some ''context deadline exceeded'') \<and>
   step ex_expired (snd (cancel ex_expired 1 (Some ''b''))) \<and>
   fst (cancel ex_expired 1 (Some ''b'')) = None \<and>
   isCancelled (snd (cancel ex_expired 1 (Some ''b''))) 1 \<and>
   getCause (snd (cancel ex_expired 1 (Some ''b''))) 1 = Some ''b'' \<and>
   doneP (heap (snd (cancel ex_expired 1 (Some ''b''))) ! 1) =
     Fulfilled (Some ''context deadline exceeded'')"
proof -
  have "cls (heap ex_expired ! 1) = DeadlineContextC \<and>
   \<not> isCancelled ex_expired 1 \<and>
   getCause ex_expired 1 = Some ''context deadline exceeded'' \<and>
   doneP (heap ex_expired ! 1) = Fulfilled (Some ''context deadline exceeded'') \<and>
   fst (cancel ex_expired 1 (Some ''b'')) = None \<and>
   isCancelled (snd (cancel ex_expired 1 (Some ''b''))) 1 \<and>
   getCause (snd (cancel ex_expired 1 (Some ''b''))) 1 = Some ''b'' \<and>
   doneP (heap (snd (cancel ex_expired 1 (Some ''b''))) ! 1) =
     Fulfilled (Some ''context deadline exceeded'')"
    by code_simp
  moreover have "step ex_expired (snd (cancel ex_expired 1 (Some ''b'')))"
    by (rule s_cancel [OF instanceofCancelable_ex_expired])
  ultimately show ?thesis using reachable_ex_expired by blast
qed

text \<open>
  Claim C8, amended. From a reachable state on, through any number of steps (calls of
  \<^verbatim>\<open>cancel\<close>, timers firing, microtasks, constructions, \<^verbatim>\<open>onCancel\<close>): a context that is
  canceled stays canceled with the same cause; a fulfilled \<^verbatim>\<open>done\<close> promise keeps its
  value; an aborted signal keeps its reason. The statement is silent on the cause of a
  deadline context whose timer has fired and which is not canceled.
\<close>

theorem terminal_state_kept:
  assumes "reachable s" and "step\<^sup>*\<^sup>* s s'" and "valid s a"
  shows "(isCancelled s a \<longrightarrow> isCancelled s' a \<and> getCause s' a = getCause s a) \<and>
         (\<forall>v. doneP (heap s ! a) = Fulfilled v \<longrightarrow> doneP (heap s' ! a) = Fulfilled v) \<and>
         (\<forall>r. getController s a = Aborted r \<longrightarrow> getController s' a = Aborted r)"
proof -
  from steps_stable [OF assms(2) assms(1)] have "stable s s'" by simp
  with assms(3) have "settled (heap s ! a) (heap s' ! a)"
    by (simp add: stable_def valid_def)
  then show ?thesis
    by (simp add: settled_def isCancelled_def getCause_def getController_def)
qed

theorem terminal_state_kept_witness:
  "reachable ex_deadline_canceled \<and>
   step\<^sup>*\<^sup>* ex_deadline_canceled (snd (cancel ex_deadline_canceled 1 (Some ''second''))) \<and>
   valid ex_deadline_canceled 1 \<and> isCancelled ex_deadline_canceled 1 \<and>
   getCause ex_deadline_canceled 1 = Some ''first'' \<and>
   doneP (heap ex_deadline_canceled ! 1) = Fulfilled (Some ''first'') \<and>
   getController ex_deadline_canceled 1 = Aborted (Some ''first'') \<and>
   isCancelled (snd (cancel ex_deadline_canceled 1 (Some ''second''))) 1 \<and>
   getCause (snd (cancel ex_deadline_canceled 1 (Some ''second''))) 1 = Some ''first'' \<and>
   doneP (heap (snd (cancel ex_deadline_canceled 1 (Some ''second''))) ! 1) = Fulfilled (Some ''first'') \<and>
   getController (snd (cancel ex_deadline_canceled 1 (Some ''second''))) 1 = Aborted (Some ''first'')"
proof -
  have st: "step\<^sup>*\<^sup>* ex_deadline_canceled (snd (cancel ex_deadline_canceled 1 (Some ''second'')))"
    using s_cancel [OF instanceofCancelable_ex_deadline_canceled, of "''second''"]
    by (rule r_into_rtranclp)
  have a: "valid ex_deadline_canceled 1" "isCancelled ex_deadline_canceled 1"
    "getCause ex_deadline_canceled 1 = Some ''first''"
    "doneP (heap ex_deadline_canceled ! 1) = Fulfilled (Some ''first'')"
    "getController ex_deadline_canceled 1 = Aborted (Some ''first'')"
    by code_simp+
  from terminal_state_kept [OF reachable_ex_deadline_canceled st a(1)] a
  have "isCancelled (snd (cancel ex_deadline_canceled 1 (Some ''second''))) 1 \<and>
   getCause (snd (cancel ex_deadline_canceled 1 (Some ''second''))) 1 = Some ''first'' \<and>
   doneP (heap (snd (cancel ex_deadline_canceled 1 (Some ''second''))) ! 1) = Fulfilled (Some ''first'') \<and>
   getController (snd (cancel ex_deadline_canceled 1 (Some ''second''))) 1 = Aborted (Some ''first'')"
    by simp
  with reachable_ex_deadline_canceled st a show ?thesis by blast
qed


section \<open>The order of the steps of cancel\<close>

text \<open>What \<^verbatim>\<open>cancel\<close> does after the listeners have returned.\<close>

lemma exec_after_forEach:
  "exec s3 (FAbort a c # FCascade a c # (if k = DeadlineContextC then [FResolve a c] else [])) =
      (let s1 = abort s3 a c;
           rs = (case children (heap s1 ! a) of
                   None \<Rightarrow> (None, s1) | Some ch \<Rightarrow> cancel s1 ch c)
       in if k = DeadlineContextC \<and> fst rs = None
          then doneResolve (snd rs) a c else rs)"
proof (cases "children (heap s3 ! a)")
  case None
  then show ?thesis by (simp add: exec_FCascade Let_def)
next
  case (Some ch)
  let ?post = "if k = DeadlineContextC then [FResolve a c] else []"
  have "exec (abort s3 a c) (FCancel ch c # ?post) =
      (case cancel (abort s3 a c) ch c of (None, s') \<Rightarrow> exec s' ?post | (Some e, s') \<Rightarrow> (Some e, s'))"
    using exec_first [of "abort s3 a c" "FCancel ch c" ?post] by (simp add: cancel_def)
  with Some show ?thesis
    by (auto simp: exec_FCascade Let_def split: prod.splits option.splits)
qed

text \<open>
  While an object is canceled nothing aborts its signal, unless the call of \<^verbatim>\<open>abort\<close> is
  already on the stack.
\<close>

lemma stepFrame_new_FAbort:
  assumes "stepFrame s f = (e, s', new)" and "FAbort a c \<in> set new"
  shows "\<not> canceled (heap s ! a)"
proof (cases f)
  case (FCancel b c')
  show ?thesis
  proof (cases "instanceofCancelable s b")
    case False
    with assms FCancel show ?thesis by simp
  next
    case True
    with assms FCancel show ?thesis
      by (cases "cls (heap s ! b) = DeadlineContextC")
         (auto simp: stepFrame_FCancel simp del: stepFrame.simps(1) split: if_splits)
  qed
next
  case (FOnCancel b cb)
  with assms show ?thesis by (auto split: if_splits)
next
  case (FForEach b cbs)
  with assms show ?thesis by (cases cbs) auto
next
  case (FBody ss x)
  with assms show ?thesis
    by (cases ss; cases "hd ss") auto
next
  case (FAbort b c')
  with assms show ?thesis by auto
next
  case (FCascade b c')
  with assms show ?thesis by (auto split: option.splits)
next
  case (FResolve b c')
  with assms show ?thesis by (auto split: prod.splits)
qed

lemma stepFrame_controller:
  assumes "stepFrame s f = (e, s', new)" and "\<forall>c. f \<noteq> FAbort a c"
  shows "controller (heap s' ! a) = controller (heap s ! a)"
proof (cases f)
  case (FCancel b c')
  with assms(1) have "s' = s \<or> s' = clearTimeout s b \<or> s' = markCanceled s b c' \<or>
      s' = markCanceled (clearTimeout s b) b c'"
    by (auto simp: Let_def split: if_splits)
  then show ?thesis by auto
next
  case (FOnCancel b cb)
  with assms(1) show ?thesis by (auto split: if_splits)
next
  case (FForEach b cbs)
  with assms(1) show ?thesis by (cases cbs) auto
next
  case (FBody ss x)
  with assms(1) show ?thesis
    by (cases ss; cases "hd ss") auto
next
  case (FAbort b c')
  with assms have "b \<noteq> a" "s' = abort s b c'" by auto
  then show ?thesis by (simp add: nth_heap_abort)
next
  case (FCascade b c')
  with assms(1) show ?thesis by (auto split: option.splits)
next
  case (FResolve b c')
  with assms(1) have "s' = snd (doneResolve s b c')" by (simp split: prod.splits)
  then show ?thesis by simp
qed

lemma controller_exec_canceled:
  assumes "canceled (heap s ! a)" and "\<forall>c. FAbort a c \<notin> set fs"
  shows "controller (heap (snd (exec s fs)) ! a) = controller (heap s ! a)"
proof -
  define k where "k = controller (heap s ! a)"
  have "(\<lambda>r. controller (heap (snd r) ! a) = k) (exec s fs)"
  proof (rule exec_rule [where Q = "\<lambda>s fs. canceled (heap s ! a) \<and> controller (heap s ! a) = k \<and>
           (\<forall>c. FAbort a c \<notin> set fs)"])
    show "canceled (heap s ! a) \<and> controller (heap s ! a) = k \<and> (\<forall>c. FAbort a c \<notin> set fs)"
      using assms by (simp add: k_def)
  next
    fix s f fs s' new
    assume Q: "canceled (heap s ! a) \<and> controller (heap s ! a) = k \<and>
               (\<forall>c. FAbort a c \<notin> set (f # fs))"
      and st: "stepFrame s f = (None, s', new)"
    from Q have f: "\<forall>c. f \<noteq> FAbort a c" by auto
    have "canceled (heap s' ! a)" using stepFrame_keeps(4) [OF st] Q by simp
    moreover have "controller (heap s' ! a) = k"
      using stepFrame_controller [OF st f] Q by simp
    moreover have "\<forall>c. FAbort a c \<notin> set new"
      using stepFrame_new_FAbort [OF st] Q by blast
    ultimately show "canceled (heap s' ! a) \<and> controller (heap s' ! a) = k \<and>
                     (\<forall>c. FAbort a c \<notin> set (new @ fs))"
      using Q by auto
  next
    fix s f fs e s' new
    assume Q: "canceled (heap s ! a) \<and> controller (heap s ! a) = k \<and>
               (\<forall>c. FAbort a c \<notin> set (f # fs))"
      and st: "stepFrame s f = (Some e, s', new)"
    from Q have f: "\<forall>c. f \<noteq> FAbort a c" by auto
    from stepFrame_controller [OF st f] Q
    show "controller (heap (snd (Some e, s')) ! a) = k" by simp
  qed simp
  then show ?thesis by (simp add: k_def)
qed

lemma forEach_keeps:
  assumes "canceled (heap s ! a)"
  shows "canceled (heap (snd (forEach s a cbs)) ! a)"
    and "cause (heap (snd (forEach s a cbs)) ! a) = cause (heap s ! a)"
    and "controller (heap (snd (forEach s a cbs)) ! a) = controller (heap s ! a)"
  using canceled_cause_exec [OF assms, of "[FForEach a cbs]"]
    controller_exec_canceled [OF assms, of "[FForEach a cbs]"]
  by (simp_all add: forEach_def)

lemma call_keeps:
  assumes "canceled (heap s ! a)"
  shows "canceled (heap (snd (call s ss x)) ! a)"
    and "cause (heap (snd (call s ss x)) ! a) = cause (heap s ! a)"
  using canceled_cause_exec [OF assms, of "[FBody ss x]"]
  by (simp_all add: call_def)


text \<open>
  Claim C1 says that \<^verbatim>\<open>cancel(c)\<close> on a live scope calls every listener, then aborts the
  signal with \<open>c\<close>, then cancels the propagation child. In the first run the parent has
  the listeners 1, which throws, and 8, and a child at address 2: \<^verbatim>\<open>parent.cancel("x")\<close>
  throws out of the first listener, the listener 8 is not called, \<^verbatim>\<open>abort\<close> is not
  called and the child is not canceled. In the second run the timer of a deadline
  context has fired: \<^verbatim>\<open>cancel("b")\<close> calls \<^verbatim>\<open>abort("b")\<close>, and the signal keeps the
  reason \<^verbatim>\<open>"context deadline exceeded"\<close>.
\<close>

theorem cancel_order_broken:
  "instanceofCancelable ex_faulty 1 \<and> \<not> isCancelled ex_faulty 1 \<and>
   map ident (cancelCallback (heap ex_faulty ! 1)) = [1, 8] \<and>
   children (heap ex_faulty ! 1) = Some 2 \<and>
   fst (cancel ex_faulty 1 (Some ''x'')) = Some ListenerError \<and>
   isCancelled (snd (cancel ex_faulty 1 (Some ''x''))) 1 \<and>
   trace (snd (cancel ex_faulty 1 (Some ''x''))) = trace ex_faulty @ [Listener 1 1 (Some ''x'')] \<and>
   getController (snd (cancel ex_faulty 1 (Some ''x''))) 1 = NotAborted \<and>
   \<not> isCancelled (snd (cancel ex_faulty 1 (Some ''x''))) 2 \<and>
   instanceofCancelable ex_expired 1 \<and> \<not> isCancelled ex_expired 1 \<and>
   fst (cancel ex_expired 1 (Some ''b'')) = None \<and>
   trace (snd (cancel ex_expired 1 (Some ''b''))) =
     trace ex_expired @ [AbortCall 1 (Some ''b''), ResolveCall 1 (Some ''b'')] \<and>
   getController (snd (cancel ex_expired 1 (Some ''b''))) 1 =
     Aborted (Some ''context deadline exceeded'')"
  by code_simp

text \<open>
  Claim C1, amended. \<^verbatim>\<open>cancel(c)\<close> on a cancelable context that is not canceled first
  reaches the state \<open>s2\<close>, where the object is canceled with cause \<open>c\<close> and nothing has
  been called. From \<open>s2\<close> the listeners run, in registration order and each with \<open>c\<close>:
  \<^verbatim>\<open>forEach\<close> calls the first listener, runs its body and, unless that threw, goes on
  with the others, and the object stays canceled with cause \<open>c\<close> meanwhile. If a
  listener throws, this is the result of \<^verbatim>\<open>cancel\<close>: no \<^verbatim>\<open>abort\<close>, no cascade.
  Otherwise \<^verbatim>\<open>abort(c)\<close> is called next, which leaves the signal aborted, with \<open>c\<close>
  unless it was aborted before the call of \<^verbatim>\<open>cancel\<close>; only then \<^verbatim>\<open>cancel(c)\<close> runs on
  the propagation child, if there is one; a deadline context resolves its promise after
  that, unless the cascade threw. Listeners that only return leave in the trace one call
  each, in their order. However \<^verbatim>\<open>cancel\<close> ends, the object is canceled with cause \<open>c\<close>.
\<close>

theorem cancel_order:
  assumes "instanceofCancelable s a" and "\<not> isCancelled s a"
  shows "let s2 = markCanceled (if cls (heap s ! a) = DeadlineContextC then clearTimeout s a else s) a c;
             s3 = snd (forEach s2 a (cancelCallback (heap s ! a)))
     in
     isCancelled s2 a \<and> getCause s2 a = c \<and> trace s2 = trace s \<and>
     getController s2 a = getController s a \<and>
     cancel s a c =
       (case forEach s2 a (cancelCallback (heap s ! a)) of
          (Some e, s3) \<Rightarrow> (Some e, s3)
        | (None, s3) \<Rightarrow>
            (let s1 = abort s3 a c;
                 rs = (case children (heap s1 ! a) of
                         None \<Rightarrow> (None, s1) | Some ch \<Rightarrow> cancel s1 ch c)
             in if cls (heap s ! a) = DeadlineContextC \<and> fst rs = None
                then doneResolve (snd rs) a c else rs)) \<and>
     (list_all inert (cancelCallback (heap s ! a)) \<longrightarrow>
        forEach s2 a (cancelCallback (heap s ! a)) =
          (None, emit s2 (map (\<lambda>cb. Listener a (ident cb) c) (cancelCallback (heap s ! a))))) \<and>
     (\<forall>t cb cbs. isCancelled t a \<and> getCause t a = c \<longrightarrow>
        forEach t a [] = (None, t) \<and>
        forEach t a (cb # cbs) =
          (case call (emit t [Listener a (ident cb) c]) (body cb) c of
             (None, t') \<Rightarrow> forEach t' a cbs | (Some e, t') \<Rightarrow> (Some e, t')) \<and>
        isCancelled (snd (call (emit t [Listener a (ident cb) c]) (body cb) c)) a \<and>
        getCause (snd (call (emit t [Listener a (ident cb) c]) (body cb) c)) a = c) \<and>
     isCancelled s3 a \<and> getCause s3 a = c \<and>
     trace (abort s3 a c) = trace s3 @ [AbortCall a c] \<and>
     getController (abort s3 a c) a =
       (case getController s a of NotAborted \<Rightarrow> Aborted c | Aborted r \<Rightarrow> Aborted r) \<and>
     isCancelled (snd (cancel s a c)) a \<and> getCause (snd (cancel s a c)) a = c"
proof -
  from assms(2) have live: "\<not> canceled (heap s ! a)" by (simp add: isCancelled_def)
  from assms(1) have va: "valid s a" by (simp add: instanceofCancelable_def)
  define s0 where "s0 = (if cls (heap s ! a) = DeadlineContextC then clearTimeout s a else s)"
  define s2 where "s2 = markCanceled s0 a c"
  define cbs where "cbs = cancelCallback (heap s ! a)"
  have v0: "valid s0 a" using va by (simp add: s0_def)
  have can2: "canceled (heap s2 ! a)" and cause2: "cause (heap s2 ! a) = c"
    using v0 by (simp_all add: s2_def nth_heap_markCanceled)
  have 1: "isCancelled s2 a \<and> getCause s2 a = c \<and> trace s2 = trace s \<and>
           getController s2 a = getController s a"
    using can2 cause2
    by (simp add: isCancelled_def getCause_def getController_def) (simp add: s2_def s0_def)
  have 2: "cancel s a c =
       (case forEach s2 a cbs of
          (Some e, s3) \<Rightarrow> (Some e, s3)
        | (None, s3) \<Rightarrow>
            (let s1 = abort s3 a c;
                 rs = (case children (heap s1 ! a) of
                         None \<Rightarrow> (None, s1) | Some ch \<Rightarrow> cancel s1 ch c)
             in if cls (heap s ! a) = DeadlineContextC \<and> fst rs = None
                then doneResolve (snd rs) a c else rs))"
    unfolding cbs_def s2_def s0_def by (rule cancel_live [OF assms(1) live])
  have 3: "list_all inert cbs \<longrightarrow>
        forEach s2 a cbs = (None, emit s2 (map (\<lambda>cb. Listener a (ident cb) c) cbs))"
    by (simp add: forEach_inert cause2)
  have 4: "forEach t a [] = (None, t) \<and>
        forEach t a (cb # cbs') =
          (case call (emit t [Listener a (ident cb) c]) (body cb) c of
             (None, t') \<Rightarrow> forEach t' a cbs' | (Some e, t') \<Rightarrow> (Some e, t')) \<and>
        isCancelled (snd (call (emit t [Listener a (ident cb) c]) (body cb) c)) a \<and>
        getCause (snd (call (emit t [Listener a (ident cb) c]) (body cb) c)) a = c"
    if "isCancelled t a \<and> getCause t a = c" for t cb cbs'
  proof -
    from that have t: "canceled (heap t ! a)" "cause (heap t ! a) = c"
      by (simp_all add: isCancelled_def getCause_def)
    then have "canceled (heap (emit t [Listener a (ident cb) c]) ! a)" by simp
    from call_keeps [OF this, of "body cb" c] t show ?thesis
      by (simp add: forEach_Cons isCancelled_def getCause_def)
  qed
  define s3 where "s3 = snd (forEach s2 a cbs)"
  have v3: "valid s3 a" using v0 by (simp add: s3_def forEach_def s2_def)
  have 5: "isCancelled s3 a \<and> getCause s3 a = c \<and>
         trace (abort s3 a c) = trace s3 @ [AbortCall a c] \<and>
         getController (abort s3 a c) a =
           (case getController s a of NotAborted \<Rightarrow> Aborted c | Aborted r \<Rightarrow> Aborted r)"
    using forEach_keeps [OF can2, of cbs] cause2 v3 1
    by (simp add: isCancelled_def getCause_def getController_def s3_def [symmetric] nth_heap_abort)
  have "cancel s a c = exec s2 (FForEach a cbs # FAbort a c # FCascade a c #
              (if cls (heap s ! a) = DeadlineContextC then [FResolve a c] else []) @ [])"
    unfolding cancel_def cbs_def s2_def s0_def by (rule exec_FCancel_live [OF assms(1) live])
  with canceled_cause_exec [OF can2] cause2
  have 6: "isCancelled (snd (cancel s a c)) a \<and> getCause (snd (cancel s a c)) a = c"
    by (simp add: isCancelled_def getCause_def)
  from 1 2 3 4 5 6 show ?thesis
    unfolding cbs_def s3_def s2_def s0_def Let_def by blast
qed

theorem cancel_order_witness:
  "instanceofCancelable ex_family 1 \<and> \<not> isCancelled ex_family 1 \<and>
   cancelCallback (heap ex_family ! 1) = [Callback 7 []] \<and>
   list_all inert (cancelCallback (heap ex_family ! 1)) \<and>
   children (heap ex_family ! 1) = Some 3 \<and>
   trace (snd (cancel ex_family 1 (Some ''x''))) =
     trace ex_family @ [Listener 1 7 (Some ''x''), AbortCall 1 (Some ''x''), AbortCall 3 (Some ''x'')] \<and>
   forEach (markCanceled ex_family 1 (Some ''x'')) 1 [Callback 7 []] =
     (None, emit (markCanceled ex_family 1 (Some ''x'')) [Listener 1 7 (Some ''x'')]) \<and>
   isCancelled (markCanceled ex_family 1 (Some ''x'')) 1 \<and>
   getCause (markCanceled ex_family 1 (Some ''x'')) 1 = Some ''x'' \<and>
   forEach (markCanceled ex_family 1 (Some ''x'')) 1 [Callback 7 []] =
     (case call (emit (markCanceled ex_family 1 (Some ''x'')) [Listener 1 7 (Some ''x'')]) []
             (Some ''x'') of
        (None, t') \<Rightarrow> forEach t' 1 [] | (Some e, t') \<Rightarrow> (Some e, t')) \<and>
   cancel ex_family 1 (Some ''x'') =
     cancel (abort (emit (markCanceled ex_family 1 (Some ''x'')) [Listener 1 7 (Some ''x'')]) 1
               (Some ''x'')) 3 (Some ''x'')"
proof -
  have a: "instanceofCancelable ex_family 1" by code_simp
  have b: "\<not> isCancelled ex_family 1" by code_simp
  have c: "cancelCallback (heap ex_family ! 1) = [Callback 7 []]" by code_simp
  have d: "children (heap ex_family ! 1) = Some 3" by code_simp
  have e: "cls (heap ex_family ! 1) = CancelableContextC" by code_simp
  have f: "trace (snd (cancel ex_family 1 (Some ''x''))) =
     trace ex_family @ [Listener 1 7 (Some ''x''), AbortCall 1 (Some ''x''), AbortCall 3 (Some ''x'')]"
    by code_simp
  have g: "list_all inert (cancelCallback (heap ex_family ! 1))"
    by (simp add: c inert_def del: One_nat_def)
  note T = cancel_order [OF a b, of "Some ''x''", unfolded Let_def]
  from T g have fe: "forEach (markCanceled ex_family 1 (Some ''x'')) 1 [Callback 7 []] =
     (None, emit (markCanceled ex_family 1 (Some ''x'')) [Listener 1 7 (Some ''x'')])"
    by (simp add: c e del: One_nat_def)
  from T have "cancel ex_family 1 (Some ''x'') =
       (case forEach (markCanceled ex_family 1 (Some ''x'')) 1 [Callback 7 []] of
          (Some e, s3) \<Rightarrow> (Some e, s3)
        | (None, s3) \<Rightarrow>
            (case children (heap (abort s3 1 (Some ''x'')) ! 1) of
               None \<Rightarrow> (None, abort s3 1 (Some ''x''))
             | Some ch \<Rightarrow> cancel (abort s3 1 (Some ''x'')) ch (Some ''x'')))"
    by (simp add: c e del: One_nat_def)
  then have eq: "cancel ex_family 1 (Some ''x'') =
     cancel (abort (emit (markCanceled ex_family 1 (Some ''x'')) [Listener 1 7 (Some ''x'')]) 1
               (Some ''x'')) 3 (Some ''x'')"
    by (simp add: fe d del: One_nat_def)
  from T have m: "isCancelled (markCanceled ex_family 1 (Some ''x'')) 1 \<and>
      getCause (markCanceled ex_family 1 (Some ''x'')) 1 = Some ''x''"
    by (simp add: e del: One_nat_def)
  from T have "\<forall>t cb cbs. isCancelled t 1 \<and> getCause t 1 = Some ''x'' \<longrightarrow>
        forEach t 1 [] = (None, t) \<and>
        forEach t 1 (cb # cbs) =
          (case call (emit t [Listener 1 (ident cb) (Some ''x'')]) (body cb) (Some ''x'') of
             (None, t') \<Rightarrow> forEach t' 1 cbs | (Some e, t') \<Rightarrow> (Some e, t'))"
    by blast
  from this [rule_format, OF m, of "Callback 7 []" "[]"]
  have un: "forEach (markCanceled ex_family 1 (Some ''x'')) 1 [Callback 7 []] =
     (case call (emit (markCanceled ex_family 1 (Some ''x'')) [Listener 1 7 (Some ''x'')]) []
             (Some ''x'') of
        (None, t') \<Rightarrow> forEach t' 1 [] | (Some e, t') \<Rightarrow> (Some e, t'))"
    by simp
  from a b c d f g fe m un eq show ?thesis by blast
qed


section \<open>A second cancel\<close>

lemma clearTimeout_Null: "timeoutId (heap s ! a) = Null \<Longrightarrow> clearTimeout s a = s"
  by (simp add: clearTimeout_def)

lemma doneResolve_ok:
  "valid s a \<Longrightarrow> fst (doneResolve s a c) = None \<Longrightarrow>
   \<exists>v. doneP (heap (snd (doneResolve s a c)) ! a) = Fulfilled v"
  by (auto simp: doneResolve_def nth_heap_upd valid_def split: promise.splits)

lemma doneResolve_Fulfilled:
  "doneP (heap s ! a) = Fulfilled v \<Longrightarrow>
   doneResolve s a c = (None, s\<lparr>trace := trace s @ [ResolveCall a c]\<rparr>)"
  by (simp add: doneResolve_def emit_def)

text \<open>
  The state that the first \<^verbatim>\<open>cancel\<close> on a live object leaves, whether it returned or
  threw: the object is canceled with the cause of the call, and the timer of a deadline
  context is cleared. If the call returned, the promise of a deadline context is settled.
\<close>

lemma first_cancel:
  assumes "instanceofCancelable s a" and "\<not> canceled (heap s ! a)"
  shows "canceled (heap (snd (cancel s a c)) ! a)"
    and "cause (heap (snd (cancel s a c)) ! a) = c"
    and "cls (heap s ! a) = DeadlineContextC \<Longrightarrow> timeoutId (heap (snd (cancel s a c)) ! a) = Null"
    and "cls (heap s ! a) = DeadlineContextC \<Longrightarrow> fst (cancel s a c) = None \<Longrightarrow>
         \<exists>v. doneP (heap (snd (cancel s a c)) ! a) = Fulfilled v"
proof -
  from assms(1) have va: "valid s a" by (simp add: instanceofCancelable_def)
  define s2 where
    "s2 = markCanceled (if cls (heap s ! a) = DeadlineContextC then clearTimeout s a else s) a c"
  have eq: "cancel s a c = exec s2 (FForEach a (cancelCallback (heap s ! a)) # FAbort a c #
              FCascade a c # (if cls (heap s ! a) = DeadlineContextC then [FResolve a c] else []) @ [])"
    unfolding cancel_def s2_def by (rule exec_FCancel_live [OF assms])
  have can2: "canceled (heap s2 ! a)" and cause2: "cause (heap s2 ! a) = c"
    using va by (simp_all add: s2_def nth_heap_markCanceled)
  from canceled_cause_exec [OF can2] cause2
  show "canceled (heap (snd (cancel s a c)) ! a)" and "cause (heap (snd (cancel s a c)) ! a) = c"
    by (simp_all add: eq)
  show "timeoutId (heap (snd (cancel s a c)) ! a) = Null" if "cls (heap s ! a) = DeadlineContextC"
  proof -
    have "timeoutId (heap s2 ! a) = Null"
      using va that by (simp add: s2_def nth_heap_clearTimeout)
    then show ?thesis unfolding eq by (rule timeoutId_Null_exec)
  qed
  show "\<exists>v. doneP (heap (snd (cancel s a c)) ! a) = Fulfilled v"
    if d: "cls (heap s ! a) = DeadlineContextC" and ok: "fst (cancel s a c) = None"
  proof -
    note L = cancel_live [OF assms, of c, folded s2_def]
    obtain e3 s3 where fe: "forEach s2 a (cancelCallback (heap s ! a)) = (e3, s3)"
      by (cases "forEach s2 a (cancelCallback (heap s ! a))")
    with L ok have e3: "e3 = None" by (cases e3) auto
    define rs where "rs = (case children (heap s3 ! a) of
                         None \<Rightarrow> (None, abort s3 a c) | Some ch \<Rightarrow> cancel (abort s3 a c) ch c)"
    from L fe e3 d have eq2: "cancel s a c = (if fst rs = None then doneResolve (snd rs) a c else rs)"
      by (simp add: Let_def rs_def)
    with ok have "fst rs = None" by (auto split: if_splits)
    with eq2 have eq3: "cancel s a c = doneResolve (snd rs) a c" by simp
    have "s3 = snd (forEach s2 a (cancelCallback (heap s ! a)))" using fe by simp
    then have "valid s3 a" using va by (simp add: forEach_def s2_def)
    then have "valid (snd rs) a"
      by (cases "children (heap s3 ! a)") (simp_all add: rs_def)
    from doneResolve_ok [OF this, of c] ok show ?thesis by (simp add: eq3)
  qed
qed

text \<open>
  Claim C3 says that a second \<^verbatim>\<open>cancel\<close> changes no state. On a deadline context with a
  listener that throws, \<^verbatim>\<open>d.cancel("a")\<close> throws before it reaches \<^verbatim>\<open>doneResolve\<close>,
  and \<^verbatim>\<open>d.cancel("b")\<close> then fulfils the promise \<^verbatim>\<open>done\<close>, with \<^verbatim>\<open>"b"\<close>, while the
  cause stays \<^verbatim>\<open>"a"\<close>.
\<close>

theorem second_cancel_resolves:
  "instanceofCancelable ex_deadline_faulty 1 \<and> \<not> isCancelled ex_deadline_faulty 1 \<and>
   fst (cancel ex_deadline_faulty 1 (Some ''a'')) = Some ListenerError \<and>
   isCancelled (snd (cancel ex_deadline_faulty 1 (Some ''a''))) 1 \<and>
   getCause (snd (cancel ex_deadline_faulty 1 (Some ''a''))) 1 = Some ''a'' \<and>
   doneP (heap (snd (cancel ex_deadline_faulty 1 (Some ''a''))) ! 1) = Pending [] \<and>
   fst (cancel (snd (cancel ex_deadline_faulty 1 (Some ''a''))) 1 (Some ''b'')) = None \<and>
   doneP (heap (snd (cancel (snd (cancel ex_deadline_faulty 1 (Some ''a''))) 1 (Some ''b''))) ! 1) =
     Fulfilled (Some ''b'') \<and>
   getCause (snd (cancel (snd (cancel ex_deadline_faulty 1 (Some ''a''))) 1 (Some ''b''))) 1 =
     Some ''a''"
  by code_simp

text \<open>
  Claim C3, amended. After \<^verbatim>\<open>cancel(c1)\<close> on a cancelable context that was not
  canceled, whether the call returned or threw, the context is canceled with cause
  \<open>c1\<close>, and a second \<^verbatim>\<open>cancel(c2)\<close> leaves that so, calls no listener and does not
  call \<^verbatim>\<open>abort\<close>. On a context that is not a deadline context the second call returns
  the state it found. On a deadline context the second call is the call of
  \<^verbatim>\<open>doneResolve(c2)\<close> alone; if the first call returned, the promise is settled by
  then, and the second call returns the state it found, apart from the record of that
  call in the trace.
\<close>

theorem cancel_twice:
  assumes "instanceofCancelable s a" and "\<not> isCancelled s a"
  shows "isCancelled (snd (cancel s a (Some c1))) a \<and>
         getCause (snd (cancel s a (Some c1))) a = Some c1 \<and>
         cancel (snd (cancel s a (Some c1))) a (Some c2) =
           (if cls (heap s ! a) = DeadlineContextC
            then doneResolve (snd (cancel s a (Some c1))) a (Some c2)
            else (None, snd (cancel s a (Some c1)))) \<and>
         (\<exists>es. trace (snd (cancel (snd (cancel s a (Some c1))) a (Some c2))) =
                  trace (snd (cancel s a (Some c1))) @ es \<and>
               filter isAnyListener es = [] \<and> filter isAbort es = []) \<and>
         isCancelled (snd (cancel (snd (cancel s a (Some c1))) a (Some c2))) a \<and>
         getCause (snd (cancel (snd (cancel s a (Some c1))) a (Some c2))) a = Some c1 \<and>
         (fst (cancel s a (Some c1)) = None \<longrightarrow>
            cancel (snd (cancel s a (Some c1))) a (Some c2) =
              (None, (snd (cancel s a (Some c1)))
                       \<lparr>trace := trace (snd (cancel s a (Some c1))) @
                          (if cls (heap s ! a) = DeadlineContextC
                           then [ResolveCall a (Some c2)] else [])\<rparr>))"
proof -
  define s1 where "s1 = snd (cancel s a (Some c1))"
  from assms(2) have live: "\<not> canceled (heap s ! a)" by (simp add: isCancelled_def)
  note F = first_cancel [OF assms(1) live, of "Some c1", folded s1_def]
  have inst1: "instanceofCancelable s1 a" using assms(1) by (simp add: s1_def)
  have cls1: "cls (heap s1 ! a) = cls (heap s ! a)" by (simp add: s1_def)
  have second: "cancel s1 a (Some c2) =
      (if cls (heap s ! a) = DeadlineContextC then doneResolve s1 a (Some c2) else (None, s1))"
    using cancel_canceled [OF inst1 F(1), of "Some c2"] F(3)
    by (simp add: cls1 clearTimeout_Null)
  have tr: "\<exists>es. trace (snd (cancel s1 a (Some c2))) = trace s1 @ es \<and>
               filter isAnyListener es = [] \<and> filter isAbort es = []"
    using trace_doneResolve [of s1 a "Some c2"] by (simp add: second)
  have keep: "isCancelled (snd (cancel s1 a (Some c2))) a \<and>
              getCause (snd (cancel s1 a (Some c2))) a = Some c1"
    using F(1,2) by (simp add: second isCancelled_def getCause_def)
  have ok: "cancel s1 a (Some c2) =
      (None, s1\<lparr>trace := trace s1 @
                  (if cls (heap s ! a) = DeadlineContextC then [ResolveCall a (Some c2)] else [])\<rparr>)"
    if "fst (cancel s a (Some c1)) = None"
  proof (cases "cls (heap s ! a) = DeadlineContextC")
    case True
    from F(4) [OF True that] obtain v where "doneP (heap s1 ! a) = Fulfilled v" by blast
    with True show ?thesis by (simp add: second doneResolve_Fulfilled)
  next
    case False
    then show ?thesis by (simp add: second)
  qed
  from F(1,2) second tr keep ok show ?thesis
    unfolding s1_def isCancelled_def getCause_def by blast
qed

theorem cancel_twice_witness:
  "instanceofCancelable ex_deadline 1 \<and> \<not> isCancelled ex_deadline 1 \<and>
   fst (cancel ex_deadline 1 (Some ''first'')) = None \<and>
   getCause (snd (cancel ex_deadline 1 (Some ''first''))) 1 = Some ''first'' \<and>
   cancel (snd (cancel ex_deadline 1 (Some ''first''))) 1 (Some ''second'') =
     (None, (snd (cancel ex_deadline 1 (Some ''first'')))
              \<lparr>trace := trace (snd (cancel ex_deadline 1 (Some ''first''))) @
                 [ResolveCall 1 (Some ''second'')]\<rparr>) \<and>
   getCause (snd (cancel (snd (cancel ex_deadline 1 (Some ''first''))) 1 (Some ''second''))) 1 =
     Some ''first'' \<and>
   instanceofCancelable ex_faulty 1 \<and> \<not> isCancelled ex_faulty 1 \<and>
   fst (cancel ex_faulty 1 (Some ''first'')) = Some ListenerError \<and>
   getCause (snd (cancel ex_faulty 1 (Some ''first''))) 1 = Some ''first'' \<and>
   cancel (snd (cancel ex_faulty 1 (Some ''first''))) 1 (Some ''second'') =
     (None, snd (cancel ex_faulty 1 (Some ''first'')))"
proof -
  have a: "instanceofCancelable ex_deadline 1" by code_simp
  have b: "\<not> isCancelled ex_deadline 1" by code_simp
  have c: "cls (heap ex_deadline ! 1) = DeadlineContextC" by code_simp
  have d: "fst (cancel ex_deadline 1 (Some ''first'')) = None" by code_simp
  have e: "instanceofCancelable ex_faulty 1" by code_simp
  have f: "\<not> isCancelled ex_faulty 1" by code_simp
  have g: "cls (heap ex_faulty ! 1) = CancelableContextC" by code_simp
  have h: "fst (cancel ex_faulty 1 (Some ''first'')) = Some ListenerError" by code_simp
  note T = cancel_twice [OF a b, of "''first''" "''second''"]
  from T have k1: "getCause (snd (cancel ex_deadline 1 (Some ''first''))) 1 = Some ''first''"
    by blast
  from T d have "cancel (snd (cancel ex_deadline 1 (Some ''first''))) 1 (Some ''second'') =
     (None, (snd (cancel ex_deadline 1 (Some ''first'')))
              \<lparr>trace := trace (snd (cancel ex_deadline 1 (Some ''first''))) @
                 (if cls (heap ex_deadline ! 1) = DeadlineContextC
                  then [ResolveCall 1 (Some ''second'')] else [])\<rparr>)"
    by blast
  then have k2: "cancel (snd (cancel ex_deadline 1 (Some ''first''))) 1 (Some ''second'') =
     (None, (snd (cancel ex_deadline 1 (Some ''first'')))
              \<lparr>trace := trace (snd (cancel ex_deadline 1 (Some ''first''))) @
                 [ResolveCall 1 (Some ''second'')]\<rparr>)"
    by (simp add: c del: One_nat_def)
  from T have k3:
    "getCause (snd (cancel (snd (cancel ex_deadline 1 (Some ''first''))) 1 (Some ''second''))) 1 =
     Some ''first''"
    by blast
  note 1 = k1 k2 k3
  note U = cancel_twice [OF e f, of "''first''" "''second''"]
  from U have m1: "getCause (snd (cancel ex_faulty 1 (Some ''first''))) 1 = Some ''first''"
    by blast
  from U have "cancel (snd (cancel ex_faulty 1 (Some ''first''))) 1 (Some ''second'') =
           (if cls (heap ex_faulty ! 1) = DeadlineContextC
            then doneResolve (snd (cancel ex_faulty 1 (Some ''first''))) 1 (Some ''second'')
            else (None, snd (cancel ex_faulty 1 (Some ''first''))))"
    by blast
  then have m2: "cancel (snd (cancel ex_faulty 1 (Some ''first''))) 1 (Some ''second'') =
     (None, snd (cancel ex_faulty 1 (Some ''first'')))"
    by (simp add: g del: One_nat_def)
  note 2 = m1 m2
  from a b d e f h 1 2 show ?thesis by blast
qed


section \<open>onCancel\<close>

text \<open>While an object is canceled, nothing is pushed onto its listeners.\<close>

lemma callbacks_exec_canceled:
  assumes "canceled (heap s ! a)"
  shows "cancelCallback (heap (snd (exec s fs)) ! a) = cancelCallback (heap s ! a)"
proof -
  define k where "k = cancelCallback (heap s ! a)"
  have "canceled (heap s ! a) \<and> cancelCallback (heap s ! a) = k" using assms by (simp add: k_def)
  then have "canceled (heap (snd (exec s fs)) ! a) \<and> cancelCallback (heap (snd (exec s fs)) ! a) = k"
  proof (rule exec_preserves)
    fix t f e t' new
    assume P: "canceled (heap t ! a) \<and> cancelCallback (heap t ! a) = k"
      and st: "stepFrame t f = (e, t', new)"
    have "canceled (heap t' ! a)" using stepFrame_keeps(4) [OF st] P by simp
    moreover have "cancelCallback (heap t' ! a) = k"
    proof (cases f)
      case (FCancel b c')
      with st have "t' = t \<or> t' = clearTimeout t b \<or> t' = markCanceled t b c' \<or>
          t' = markCanceled (clearTimeout t b) b c'"
        by (auto simp: Let_def split: if_splits)
      with P show ?thesis by auto
    next
      case (FOnCancel b cb)
      with st P show ?thesis by (auto simp: nth_heap_upd split: if_splits)
    next
      case (FForEach b cbs)
      with st P show ?thesis by (cases cbs) auto
    next
      case (FBody ss x)
      with st P show ?thesis by (cases ss; cases "hd ss") auto
    next
      case (FAbort b c')
      with st P show ?thesis by auto
    next
      case (FCascade b c')
      with st P show ?thesis by (auto split: option.splits)
    next
      case (FResolve b c')
      with st have "t' = snd (doneResolve t b c')" by (simp split: prod.splits)
      with P show ?thesis by simp
    qed
    ultimately show "canceled (heap t' ! a) \<and> cancelCallback (heap t' ! a) = k" by simp
  qed
  then show ?thesis by (simp add: k_def)
qed

lemma trace_cancel_prefix: "\<exists>es. trace (snd (cancel s a c)) = trace s @ es"
  unfolding cancel_def by (rule trace_exec_prefix)

text \<open>
  Claim C4 says that a listener registered on a live scope is called when \<^verbatim>\<open>cancel\<close>
  fires. Here the listener 8 is registered after a listener that throws:
  \<^verbatim>\<open>parent.cancel("x")\<close> cancels the parent and throws out of the first listener; the
  listener 8 is not called, and a later \<^verbatim>\<open>cancel\<close> calls nothing.
\<close>

theorem listener_never_called:
  "instanceofCancelable (snd (onCancel ex_parent 1 (Callback 1 [Throw]))) 1 \<and>
   \<not> isCancelled (snd (onCancel ex_parent 1 (Callback 1 [Throw]))) 1 \<and>
   fst (onCancel (snd (onCancel ex_parent 1 (Callback 1 [Throw]))) 1 (Callback 8 [])) = None \<and>
   map ident (cancelCallback (heap ex_faulty_listeners ! 1)) = [1, 8] \<and>
   trace ex_faulty_listeners = [] \<and>
   fst (cancel ex_faulty_listeners 1 (Some ''x'')) = Some ListenerError \<and>
   isCancelled (snd (cancel ex_faulty_listeners 1 (Some ''x''))) 1 \<and>
   trace (snd (cancel ex_faulty_listeners 1 (Some ''x''))) = [Listener 1 1 (Some ''x'')] \<and>
   trace (snd (cancel (snd (cancel ex_faulty_listeners 1 (Some ''x''))) 1 (Some ''y''))) =
     [Listener 1 1 (Some ''x'')]"
  by code_simp

text \<open>
  Claim C4, amended. On a canceled object \<^verbatim>\<open>onCancel(cb)\<close> calls \<open>cb\<close> with the stored
  cause, runs its body and returns; the listener is not kept. On a live object it calls
  nothing and appends \<open>cb\<close> to the listeners. A later \<^verbatim>\<open>cancel(c)\<close> on the object then
  runs the earlier listeners; if one of them throws, that is the result of \<^verbatim>\<open>cancel\<close>
  and \<open>cb\<close> is not called; otherwise \<open>cb\<close> is called with \<open>c\<close> and its body run, and,
  unless it throws, \<^verbatim>\<open>cancel\<close> goes on with \<^verbatim>\<open>abort\<close> and the cascade. When the
  earlier listeners and \<open>cb\<close> only return, the trace gains their calls in order, each
  with \<open>c\<close>, then the call of \<^verbatim>\<open>abort\<close>.
\<close>

theorem onCancel_delivery:
  assumes "instanceofCancelable s a"
  shows "if isCancelled s a
         then onCancel s a cb =
                call (emit s [Listener a (ident cb) (getCause s a)]) (body cb) (getCause s a) \<and>
              (inert cb \<longrightarrow>
                 onCancel s a cb = (None, s\<lparr>trace := trace s @ [Listener a (ident cb) (getCause s a)]\<rparr>)) \<and>
              cancelCallback (heap (snd (onCancel s a cb)) ! a) = cancelCallback (heap s ! a)
         else onCancel s a cb =
                (None, upd s a (\<lambda>ob. ob\<lparr>cancelCallback := cancelCallback ob @ [cb]\<rparr>)) \<and>
              trace (snd (onCancel s a cb)) = trace s \<and>
              cancelCallback (heap (snd (onCancel s a cb)) ! a) = cancelCallback (heap s ! a) @ [cb] \<and>
              (let s' = snd (onCancel s a cb);
                   s2 = markCanceled
                          (if cls (heap s ! a) = DeadlineContextC then clearTimeout s' a else s') a c
               in cancel s' a c =
                    (case forEach s2 a (cancelCallback (heap s ! a)) of
                       (Some e, s3) \<Rightarrow> (Some e, s3)
                     | (None, s3) \<Rightarrow>
                         (case call (emit s3 [Listener a (ident cb) c]) (body cb) c of
                            (Some e, s4) \<Rightarrow> (Some e, s4)
                          | (None, s4) \<Rightarrow>
                              (let s1 = abort s4 a c;
                                   rs = (case children (heap s1 ! a) of
                                           None \<Rightarrow> (None, s1) | Some ch \<Rightarrow> cancel s1 ch c)
                               in if cls (heap s ! a) = DeadlineContextC \<and> fst rs = None
                                  then doneResolve (snd rs) a c else rs))) \<and>
                  (list_all inert (cancelCallback (heap s ! a)) \<and> inert cb \<longrightarrow>
                     (\<exists>rest. trace (snd (cancel s' a c)) =
                        trace s @ map (\<lambda>f. Listener a (ident f) c) (cancelCallback (heap s ! a))
                          @ [Listener a (ident cb) c, AbortCall a c] @ rest)))"
proof (cases "isCancelled s a")
  case True
  then have can: "canceled (heap s ! a)" by (simp add: isCancelled_def)
  have 1: "onCancel s a cb =
      call (emit s [Listener a (ident cb) (getCause s a)]) (body cb) (getCause s a)"
    using assms can by (simp add: onCancel_unfold getCause_def)
  have 2: "onCancel s a cb = (None, s\<lparr>trace := trace s @ [Listener a (ident cb) (getCause s a)]\<rparr>)"
    if "inert cb"
    using that by (simp add: 1 inert_def emit_def)
  have 3: "cancelCallback (heap (snd (onCancel s a cb)) ! a) = cancelCallback (heap s ! a)"
    unfolding onCancel_def using can by (rule callbacks_exec_canceled)
  from True 1 2 3 show ?thesis by simp
next
  case False
  then have live: "\<not> canceled (heap s ! a)" by (simp add: isCancelled_def)
  define cbs where "cbs = cancelCallback (heap s ! a)"
  define s' where "s' = upd s a (\<lambda>ob. ob\<lparr>cancelCallback := cancelCallback ob @ [cb]\<rparr>)"
  define s2 where
    "s2 = markCanceled (if cls (heap s ! a) = DeadlineContextC then clearTimeout s' a else s') a c"
  from assms have va: "valid s a" by (simp add: instanceofCancelable_def)
  have on: "onCancel s a cb = (None, s')"
    using assms live by (simp add: onCancel_unfold s'_def)
  have lst: "cancelCallback (heap s' ! a) = cbs @ [cb]"
    using va by (simp add: s'_def nth_heap_upd cbs_def)
  have inst: "instanceofCancelable s' a"
    using assms by (simp add: s'_def instanceofCancelable_def)
  have live': "\<not> canceled (heap s' ! a)"
    using live by (simp add: s'_def)
  have cls': "cls (heap s' ! a) = cls (heap s ! a)" by (simp add: s'_def)
  have can2: "canceled (heap s2 ! a)" and cause2: "cause (heap s2 ! a) = c"
    using va by (simp_all add: s2_def nth_heap_markCanceled s'_def)
  have tr2: "trace s2 = trace s" by (simp add: s2_def s'_def)
  note L = cancel_live [OF inst live', of c, unfolded cls' lst, folded s2_def]
  have fe: "forEach s2 a (cbs @ [cb]) =
      (case forEach s2 a cbs of
         (Some e, s3) \<Rightarrow> (Some e, s3)
       | (None, s3) \<Rightarrow> call (emit s3 [Listener a (ident cb) c]) (body cb) c)"
  proof (cases "forEach s2 a cbs")
    case (Pair e3 s3)
    then have s3: "s3 = snd (forEach s2 a cbs)" by simp
    have "cause (heap s3 ! a) = c"
      unfolding s3 using forEach_keeps(2) [OF can2, of cbs] cause2 by simp
    then show ?thesis
      using Pair by (cases e3) (auto simp: forEach_append forEach_Cons split: prod.splits option.splits)
  qed
  have eq: "cancel s' a c =
      (case forEach s2 a cbs of
         (Some e, s3) \<Rightarrow> (Some e, s3)
       | (None, s3) \<Rightarrow>
           (case call (emit s3 [Listener a (ident cb) c]) (body cb) c of
              (Some e, s4) \<Rightarrow> (Some e, s4)
            | (None, s4) \<Rightarrow>
                (let s1 = abort s4 a c;
                     rs = (case children (heap s1 ! a) of
                             None \<Rightarrow> (None, s1) | Some ch \<Rightarrow> cancel s1 ch c)
                 in if cls (heap s ! a) = DeadlineContextC \<and> fst rs = None
                    then doneResolve (snd rs) a c else rs)))"
    unfolding L fe by (simp split: prod.splits option.splits)
  have tr: "\<exists>rest. trace (snd (cancel s' a c)) =
      trace s @ map (\<lambda>f. Listener a (ident f) c) cbs @ [Listener a (ident cb) c, AbortCall a c] @ rest"
    if "list_all inert cbs \<and> inert cb"
  proof -
    define s4 where
      "s4 = emit (emit s2 (map (\<lambda>f. Listener a (ident f) c) cbs)) [Listener a (ident cb) c]"
    define s1 where "s1 = abort s4 a c"
    define rs where "rs = (case children (heap s1 ! a) of
                             None \<Rightarrow> (None, s1) | Some ch \<Rightarrow> cancel s1 ch c)"
    from that have f1: "forEach s2 a cbs = (None, emit s2 (map (\<lambda>f. Listener a (ident f) c) cbs))"
      by (simp add: forEach_inert cause2)
    from that have "body cb = []" by (simp add: inert_def)
    then have c1: "call t (body cb) c = (None, t)" for t by simp
    have eq': "cancel s' a c =
        (if cls (heap s ! a) = DeadlineContextC \<and> fst rs = None
         then doneResolve (snd rs) a c else rs)"
      unfolding eq f1 rs_def s1_def s4_def by (simp add: c1 Let_def)
    have t1: "trace s1 =
        trace s @ map (\<lambda>f. Listener a (ident f) c) cbs @ [Listener a (ident cb) c, AbortCall a c]"
      by (simp add: s1_def s4_def tr2)
    obtain es where es: "trace (snd rs) = trace s1 @ es"
    proof (cases "children (heap s1 ! a)")
      case None
      then have "trace (snd rs) = trace s1 @ []" by (simp add: rs_def)
      then show ?thesis by (rule that)
    next
      case (Some ch)
      then show ?thesis using trace_cancel_prefix [of s1 ch c] that by (auto simp: rs_def)
    qed
    obtain es' where es': "trace (snd (doneResolve (snd rs) a c)) = trace (snd rs) @ es'"
      using trace_doneResolve [of "snd rs" a c] by blast
    show ?thesis
    proof (cases "cls (heap s ! a) = DeadlineContextC \<and> fst rs = None")
      case True
      with eq' es es' t1 show ?thesis by simp
    next
      case False
      with eq' es t1 show ?thesis by auto
    qed
  qed
  have snd_on: "snd (onCancel s a cb) = s'" by (simp add: on)
  show ?thesis
    unfolding if_not_P [OF False] Let_def snd_on
    apply (intro conjI)
    subgoal using on by (simp add: s'_def)
    subgoal by (simp add: s'_def)
    subgoal using lst by (simp add: cbs_def)
    subgoal by (rule eq [unfolded Let_def s2_def cbs_def])
    subgoal using tr by (simp add: cbs_def)
    done
qed

theorem onCancel_delivery_witness:
  "instanceofCancelable ex_parent_canceled 1 \<and> isCancelled ex_parent_canceled 1 \<and>
   inert (Callback 9 []) \<and>
   onCancel ex_parent_canceled 1 (Callback 9 []) =
     (None, ex_parent_canceled\<lparr>trace := trace ex_parent_canceled @ [Listener 1 9 (Some ''x'')]\<rparr>) \<and>
   instanceofCancelable ex_parent 1 \<and> \<not> isCancelled ex_parent 1 \<and>
   cancelCallback (heap ex_parent ! 1) = [] \<and> trace ex_parent = [] \<and> inert (Callback 7 []) \<and>
   fst (onCancel ex_parent 1 (Callback 7 [])) = None \<and>
   trace (snd (onCancel ex_parent 1 (Callback 7 []))) = [] \<and>
   cancelCallback (heap (snd (onCancel ex_parent 1 (Callback 7 []))) ! 1) = [Callback 7 []] \<and>
   (\<exists>rest. trace (snd (cancel (snd (onCancel ex_parent 1 (Callback 7 []))) 1 (Some ''y''))) =
        [Listener 1 7 (Some ''y''), AbortCall 1 (Some ''y'')] @ rest)"
proof -
  have a: "instanceofCancelable ex_parent_canceled 1" by code_simp
  have b: "isCancelled ex_parent_canceled 1" by code_simp
  have c: "getCause ex_parent_canceled 1 = Some ''x''" by code_simp
  have d: "instanceofCancelable ex_parent 1" by code_simp
  have e: "\<not> isCancelled ex_parent 1" by code_simp
  have f: "cancelCallback (heap ex_parent ! 1) = []" by code_simp
  have g: "trace ex_parent = []" by code_simp
  have i9: "inert (Callback 9 [])" and i7: "inert (Callback 7 [])" by (simp_all add: inert_def)
  from onCancel_delivery [OF a, of "Callback 9 []"] b c i9
  have 1: "onCancel ex_parent_canceled 1 (Callback 9 []) =
     (None, ex_parent_canceled\<lparr>trace := trace ex_parent_canceled @ [Listener 1 9 (Some ''x'')]\<rparr>)"
    by (simp del: One_nat_def)
  note T = onCancel_delivery [OF d, of "Callback 7 []" "Some ''y''", unfolded Let_def if_not_P [OF e]]
  from T [THEN conjunct1] have 2: "fst (onCancel ex_parent 1 (Callback 7 [])) = None"
    by simp
  from T [THEN conjunct2, THEN conjunct1] g
  have 3: "trace (snd (onCancel ex_parent 1 (Callback 7 []))) = []"
    by simp
  from T [THEN conjunct2, THEN conjunct2, THEN conjunct1] f
  have 4: "cancelCallback (heap (snd (onCancel ex_parent 1 (Callback 7 []))) ! 1) = [Callback 7 []]"
    by simp
  from T [THEN conjunct2, THEN conjunct2, THEN conjunct2, THEN conjunct2] f g i7
  have 5:
    "\<exists>rest. trace (snd (cancel (snd (onCancel ex_parent 1 (Callback 7 []))) 1 (Some ''y''))) =
        [Listener 1 7 (Some ''y''), AbortCall 1 (Some ''y'')] @ rest"
    by (simp del: One_nat_def)
  from a b i9 1 d e f g i7 2 3 4 5 show ?thesis by blast
qed


section \<open>Several children of one parent\<close>









section \<open>What the expiry of the deadline leaves alone\<close>

lemma jobs_finish:
  assumes "valid s a"
  shows "jobs (snd (finish s a)) =
           jobs s @ (case doneP (heap s ! a) of Pending ws \<Rightarrow> map (\<lambda>w. (w, a)) ws | _ \<Rightarrow> [])"
  using assms
  by (simp add: finish_unfold jobs_doneResolve nth_heap_abort setCause_def nth_heap_upd
      split: promise.splits)

lemma reachable_ex_chain: "reachable ex_chain"
proof -
  define s1 where "s1 = snd (onCancel ex_deadline 1 (Callback 7 []))"
  define s2 where "s2 = snd (DeadlineContext_new s1 1 5000)"
  have r1: "reachable s1"
    unfolding s1_def
    by (rule r_step [OF reachable_ex_deadline s_onCancel [OF instanceofCancelable_ex_deadline]])
  have "valid s1 1" unfolding s1_def by code_simp
  then have r2: "reachable s2"
    unfolding s2_def by (intro r_step [OF r1] s_deadline)
  have "instanceofCancelable s2 2" unfolding s2_def s1_def by code_simp
  then have "reachable (snd (onCancel s2 2 (Callback 5 [])))"
    by (intro r_step [OF r2] s_onCancel)
  then show ?thesis by (simp add: ex_chain_def s2_def s1_def)
qed

text \<open>
  Claim C10 says that the expiry of the deadline cancels no propagation child and calls
  no listener. Here the deadline context \<open>d\<close>, never canceled, has the deadline context
  \<open>e\<close> as its propagation child, which awaits \<^verbatim>\<open>d.done\<close>. The timer of \<open>d\<close> fires; the
  microtask that the resolution of \<^verbatim>\<open>d.done\<close> queued then runs
  \<^verbatim>\<open>e.cancel("context deadline exceeded")\<close>, which cancels \<open>e\<close> and calls its listener.
\<close>

theorem expiry_cancels_deadline_child:
  "reachable ex_chain \<and> map_of (timers ex_chain) 0 = Some 1 \<and>
   \<not> isCancelled ex_chain 1 \<and> getCause ex_chain 1 = None \<and>
   children (heap ex_chain ! 1) = Some 2 \<and> \<not> isCancelled ex_chain 2 \<and>
   cancelCallback (heap ex_chain ! 2) = [Callback 5 []] \<and> trace ex_chain = [] \<and>
   fst (fireTimer ex_chain 0) = None \<and> jobs (snd (fireTimer ex_chain 0)) = [(2, 1)] \<and>
   fst (runJob (snd (fireTimer ex_chain 0))) = None \<and>
   isCancelled (snd (runJob (snd (fireTimer ex_chain 0)))) 2 \<and>
   getCause (snd (runJob (snd (fireTimer ex_chain 0)))) 2 = Some ''context deadline exceeded'' \<and>
   trace (snd (runJob (snd (fireTimer ex_chain 0)))) =
     [AbortCall 1 (Some ''context deadline exceeded''),
      ResolveCall 1 (Some ''context deadline exceeded''),
      Listener 2 5 (Some ''context deadline exceeded''),
      AbortCall 2 (Some ''context deadline exceeded''),
      ResolveCall 2 (Some ''context deadline exceeded'')]"
proof -
  have "map_of (timers ex_chain) 0 = Some 1 \<and>
   \<not> isCancelled ex_chain 1 \<and> getCause ex_chain 1 = None \<and>
   children (heap ex_chain ! 1) = Some 2 \<and> \<not> isCancelled ex_chain 2 \<and>
   cancelCallback (heap ex_chain ! 2) = [Callback 5 []] \<and> trace ex_chain = [] \<and>
   fst (fireTimer ex_chain 0) = None \<and> jobs (snd (fireTimer ex_chain 0)) = [(2, 1)] \<and>
   fst (runJob (snd (fireTimer ex_chain 0))) = None \<and>
   isCancelled (snd (runJob (snd (fireTimer ex_chain 0)))) 2 \<and>
   getCause (snd (runJob (snd (fireTimer ex_chain 0)))) 2 = Some ''context deadline exceeded'' \<and>
   trace (snd (runJob (snd (fireTimer ex_chain 0)))) =
     [AbortCall 1 (Some ''context deadline exceeded''),
      ResolveCall 1 (Some ''context deadline exceeded''),
      Listener 2 5 (Some ''context deadline exceeded''),
      AbortCall 2 (Some ''context deadline exceeded''),
      ResolveCall 2 (Some ''context deadline exceeded'')]"
    by code_simp
  with reachable_ex_chain show ?thesis by simp
qed

text \<open>
  Claim C10, amended. When a pending timer fires for a deadline context, the timer
  callback changes that object in its cause, its controller and its promise only; every
  object keeps its \<^verbatim>\<open>canceled\<close> flag, its listeners and its \<^verbatim>\<open>children\<close>, so the
  context stays not canceled if it was, and the callback does not cancel its
  propagation child; no listener is called. What the callback leaves to do is one
  microtask for each deadline context that awaits the \<^verbatim>\<open>done\<close> promise of this one, and
  such a microtask, when it is the first in the queue, is the call of \<^verbatim>\<open>cancel\<close> on
  that context with the cause of this one.
\<close>

theorem expiry_frame:
  assumes "map_of (timers s) t = Some a" and "valid s a"
  shows "heap (snd (fireTimer s t)) ! b =
           (if b = a
            then (heap s ! a)\<lparr>cause := cause (heap (snd (fireTimer s t)) ! a),
                   controller := controller (heap (snd (fireTimer s t)) ! a),
                   doneP := doneP (heap (snd (fireTimer s t)) ! a)\<rparr>
            else heap s ! b) \<and>
         isCancelled (snd (fireTimer s t)) b = isCancelled s b \<and>
         cancelCallback (heap (snd (fireTimer s t)) ! b) = cancelCallback (heap s ! b) \<and>
         children (heap (snd (fireTimer s t)) ! b) = children (heap s ! b) \<and>
         (\<exists>es. trace (snd (fireTimer s t)) = trace s @ es \<and> filter isAnyListener es = []) \<and>
         jobs (snd (fireTimer s t)) =
           jobs s @ (case doneP (heap s ! a) of Pending ws \<Rightarrow> map (\<lambda>w. (w, a)) ws | _ \<Rightarrow> []) \<and>
         (\<forall>s' w js. jobs s' = (w, a) # js \<longrightarrow>
            runJob s' = cancel (s'\<lparr>jobs := js\<rparr>) w (getCause s' a))"
proof -
  define s0 where "s0 = s\<lparr>timers := filter (\<lambda>(t', b). t' \<noteq> t) (timers s)\<rparr>"
  have eq: "fireTimer s t = finish s0 a"
    using assms(1) by (simp add: fireTimer_pending s0_def)
  have v0: "valid s0 a" using assms(2) by (simp add: s0_def valid_def)
  have h0: "heap s0 = heap s" and t0: "trace s0 = trace s" and j0: "jobs s0 = jobs s"
    by (simp_all add: s0_def)
  note N = nth_heap_finish [OF v0, unfolded h0]
  have tr: "\<exists>es. trace (snd (finish s0 a)) = trace s @ es \<and> filter isAnyListener es = []"
    using trace_finish [OF v0] by (simp add: t0)
  have jb: "jobs (snd (finish s0 a)) =
      jobs s @ (case doneP (heap s ! a) of Pending ws \<Rightarrow> map (\<lambda>w. (w, a)) ws | _ \<Rightarrow> [])"
    using jobs_finish [OF v0] by (simp add: h0 j0)
  have rj: "runJob s' = cancel (s'\<lparr>jobs := js\<rparr>) w (getCause s' a)"
    if "jobs s' = (w, a) # js" for s' w js
    using that by (simp add: runJob_def)
  from tr jb rj show ?thesis
    unfolding eq isCancelled_def by (simp add: N)
qed

theorem expiry_frame_witness:
  "map_of (timers ex_chain) 0 = Some 1 \<and> valid ex_chain 1 \<and>
   \<not> isCancelled ex_chain 1 \<and> cancelCallback (heap ex_chain ! 1) = [Callback 7 []] \<and>
   children (heap ex_chain ! 1) = Some 2 \<and> \<not> isCancelled ex_chain 2 \<and>
   doneP (heap ex_chain ! 1) = Pending [2] \<and> jobs ex_chain = [] \<and>
   \<not> isCancelled (snd (fireTimer ex_chain 0)) 1 \<and>
   cancelCallback (heap (snd (fireTimer ex_chain 0)) ! 1) = [Callback 7 []] \<and>
   children (heap (snd (fireTimer ex_chain 0)) ! 1) = Some 2 \<and>
   heap (snd (fireTimer ex_chain 0)) ! 2 = heap ex_chain ! 2 \<and>
   \<not> isCancelled (snd (fireTimer ex_chain 0)) 2 \<and>
   jobs (snd (fireTimer ex_chain 0)) = [(2, 1)] \<and>
   runJob (snd (fireTimer ex_chain 0)) =
     cancel ((snd (fireTimer ex_chain 0))\<lparr>jobs := []\<rparr>) 2 (getCause (snd (fireTimer ex_chain 0)) 1) \<and>
   trace (snd (fireTimer ex_chain 0)) =
     [AbortCall 1 (Some ''context deadline exceeded''), ResolveCall 1 (Some ''context deadline exceeded'')]"
proof -
  have a: "map_of (timers ex_chain) 0 = Some 1" by code_simp
  have b: "valid ex_chain 1" by code_simp
  have c: "\<not> isCancelled ex_chain 1" "cancelCallback (heap ex_chain ! 1) = [Callback 7 []]"
    "children (heap ex_chain ! 1) = Some 2" "\<not> isCancelled ex_chain 2"
    "doneP (heap ex_chain ! 1) = Pending [2]" "jobs ex_chain = []"
    by code_simp+
  have d: "trace (snd (fireTimer ex_chain 0)) =
     [AbortCall 1 (Some ''context deadline exceeded''), ResolveCall 1 (Some ''context deadline exceeded'')]"
    by code_simp
  note T1 = expiry_frame [OF a b, of 1]
  note T2 = expiry_frame [OF a b, of 2]
  from T1 c have 1: "\<not> isCancelled (snd (fireTimer ex_chain 0)) 1 \<and>
   cancelCallback (heap (snd (fireTimer ex_chain 0)) ! 1) = [Callback 7 []] \<and>
   children (heap (snd (fireTimer ex_chain 0)) ! 1) = Some 2"
    by simp
  from T2 c have 2: "heap (snd (fireTimer ex_chain 0)) ! 2 = heap ex_chain ! 2 \<and>
   \<not> isCancelled (snd (fireTimer ex_chain 0)) 2"
    by simp
  from T1 c have 3: "jobs (snd (fireTimer ex_chain 0)) = [(2, 1)]"
    by simp
  from T1 have "\<forall>s' w js. jobs s' = (w, 1) # js \<longrightarrow>
            runJob s' = cancel (s'\<lparr>jobs := js\<rparr>) w (getCause s' 1)"
    by blast
  with 3 have 4: "runJob (snd (fireTimer ex_chain 0)) =
     cancel ((snd (fireTimer ex_chain 0))\<lparr>jobs := []\<rparr>) 2 (getCause (snd (fireTimer ex_chain 0)) 1)"
    by blast
  from a b c d 1 2 3 4 show ?thesis by blast
qed


section \<open>The tests of the repository\<close>

text \<open>
  The three scenarios of \<^verbatim>\<open>tests/tests.ts\<close> that need no network, evaluated on the
  model: a cancelable context canceled with the default cause; a deadline context
  canceled through its cancelable parent; a deadline context whose timer fires.
\<close>

lemma test_CancelableContext:
  "getCause ex_parent 1 = None \<and> \<not> isCancelled ex_parent 1 \<and>
   isCancelled (snd (cancelDefault ex_parent 1)) 1 \<and>
   getCause (snd (cancelDefault ex_parent 1)) 1 = Some ''context canceled''"
  by code_simp

lemma test_DeadlineContext_with_cancelable_parent:
  "fst (DeadlineContext_new ex_parent 1 10000) = Inr 2 \<and>
   getCause ex_deadline_child 2 = None \<and> \<not> isCancelled ex_deadline_child 2 \<and>
   parent (heap ex_deadline_child ! 2) = Some 1 \<and>
   isCancelled (snd (cancel ex_deadline_child 1 (Some ''parent canceled''))) 2 \<and>
   getCause (snd (cancel ex_deadline_child 1 (Some ''parent canceled''))) 2 =
     Some ''parent canceled'' \<and>
   doneP (heap (snd (cancel ex_deadline_child 1 (Some ''parent canceled''))) ! 2) =
     Fulfilled (Some ''parent canceled'')"
  by code_simp

lemma test_DeadlineContext_with_timeout:
  "fst (DeadlineContext_new ex_root 0 1000) = Inr 1 \<and>
   getCause ex_deadline 1 = None \<and> \<not> isCancelled ex_deadline 1 \<and>
   \<not> isCancelled ex_expired 1 \<and>
   getCause ex_expired 1 = Some ''context deadline exceeded'' \<and>
   doneP (heap ex_expired ! 1) = Fulfilled (Some ''context deadline exceeded'')"
  by code_simp

end
